theory Spec2Isabelle
  imports Main "HOL-Library.Monad_Syntax" "HOL-Library.Multiset"
begin

section \<open>The playfield of openblok: data model\<close>

text \<open>
  The development embeds \<^verbatim>\<open>src/game/components/Well.cpp\<close> and
  \<^verbatim>\<open>src/game/PieceQueue.cpp\<close>. Every member function becomes a function on an
  explicit state record and returns \<open>None\<close> where the C++ aborts: a failed
  \<^verbatim>\<open>assert\<close>, a \<^verbatim>\<open>std::out_of_range\<close> thrown by \<^verbatim>\<open>.at()\<close>, or an access through
  a null \<^verbatim>\<open>active_piece\<close>. The assertions are modelled as compiled in (no
  \<^verbatim>\<open>NDEBUG\<close>).

  \<^verbatim>\<open>unsigned\<close> values are natural numbers below \<open>2 ^ 32\<close>; every operation of
  the source that can leave that range is written with \<open>u32\<close>. \<^verbatim>\<open>int\<close> values and
  durations (tick counts of \<^verbatim>\<open>std::chrono\<close>) are \<open>int\<close>.
\<close>

definition u32 :: "int \<Rightarrow> nat" where
  "u32 i = nat (i mod 2 ^ 32)"

datatype piece_type = Type_I | Type_J | Type_L | Type_O | Type_S | Type_T | Type_Z

text \<open>\<^verbatim>\<open>Piece::Type\<close> and \<^verbatim>\<open>Piece::allTypes\<close>, the seven types in declaration order.\<close>

definition allTypes :: "piece_type list" where
  "allTypes = [Type_I, Type_J, Type_L, Type_O, Type_S, Type_T, Type_Z]"

text \<open>A cell of the board or of a piece grid is a \<^verbatim>\<open>std::unique_ptr<Mino>\<close>:
  empty (\<open>None\<close>) or owning a mino. The mino itself is a visual; only its identity
  matters here.\<close>

datatype mino = Mino piece_type

type_synonym cell = "mino option"
type_synonym grid = "cell list list"

text \<open>\<^verbatim>\<open>.at(r).at(c)\<close> on a grid: throws outside the grid.\<close>

definition grid_at :: "grid \<Rightarrow> nat \<Rightarrow> nat \<Rightarrow> cell option" where
  "grid_at g r c = (if r < length g \<and> c < length (g ! r) then Some (g ! r ! c) else None)"

text \<open>Modelled from the spec: the class \<^verbatim>\<open>Piece\<close> (its header and implementation are
  not among the sources). The spec gives a piece a type tag, a rotation state 0--3 and a
  4x4 occupancy grid per rotation; \<^verbatim>\<open>rotateCW\<close> steps the rotation state forward and
  \<^verbatim>\<open>rotateCCW\<close> backward, modulo 4. The grids hold the minos of the piece, which locking
  moves into the board.\<close>

record piece =
  ptype :: piece_type
  rotation :: nat
  frames :: "grid list"

definition currentGrid :: "piece \<Rightarrow> grid" where
  "currentGrid p = frames p ! rotation p"

definition rotateCW :: "piece \<Rightarrow> piece" where
  "rotateCW p = p\<lparr>rotation := (rotation p + 1) mod 4\<rparr>"

definition rotateCCW :: "piece \<Rightarrow> piece" where
  "rotateCCW p = p\<lparr>rotation := (rotation p + 3) mod 4\<rparr>"

text \<open>A piece as the factory builds it: a rotation state in range and four 4x4 grids.\<close>

definition grid_ok :: "grid \<Rightarrow> bool" where
  "grid_ok g = (length g = 4 \<and> list_all (\<lambda>r. length r = 4) g)"

definition piece_ok :: "piece \<Rightarrow> bool" where
  "piece_ok p = (rotation p < 4 \<and> length (frames p) = 4 \<and> list_all grid_ok (frames p))"


subsection \<open>Collaborators of the well\<close>

text \<open>\<^verbatim>\<open>InputType\<close> and \<^verbatim>\<open>InputEvent\<close> (\<^verbatim>\<open>system/InputEvent.h\<close>): the buttons that
  \<^verbatim>\<open>Well.cpp\<close> names, and an event with its accessors \<^verbatim>\<open>type()\<close> and \<^verbatim>\<open>down()\<close>.\<close>

datatype input_type = UP | DOWN | LEFT | RIGHT | A | B | GAME_HARDDROP | GAME_HOLD

record input_event =
  ev_type :: input_type
  ev_down :: bool

text \<open>\<^verbatim>\<open>WellEvent\<close>: the event types that \<^verbatim>\<open>Well.cpp\<close> emits; \<open>LINE_CLEAR\<close> carries its
  \<^verbatim>\<open>count\<close>.\<close>

datatype well_event = PIECE_LOCKED | LINE_CLEAR nat | NEXT_REQUESTED | HOLD_REQUESTED

text \<open>Modelled from the spec: the countdown class behind \<^verbatim>\<open>lock_countdown\<close> (not among
  the sources). The spec describes a timer as a remaining duration, a configured interval
  and a state running, stopped or paused; stopping resets it, unpausing lets it run,
  and an update of a running countdown that uses up the remaining time stops it and
  fires its completion action.\<close>

datatype timer_state = Running | Stopped | Paused

record countdown =
  cd_interval :: int
  cd_remaining :: int
  cd_state :: timer_state

definition cd_stop :: "countdown \<Rightarrow> countdown" where
  "cd_stop c = c\<lparr>cd_remaining := cd_interval c, cd_state := Stopped\<rparr>"

definition cd_unpause :: "countdown \<Rightarrow> countdown" where
  "cd_unpause c = c\<lparr>cd_state := Running\<rparr>"

definition cd_running :: "countdown \<Rightarrow> bool" where
  "cd_running c = (cd_state c = Running)"

text \<open>The update returns the countdown and whether the completion action fires.\<close>

definition cd_update :: "int \<Rightarrow> countdown \<Rightarrow> countdown \<times> bool" where
  "cd_update d c =
     (if cd_state c = Running then
        (if cd_remaining c - d \<le> 0 then (cd_stop c, True)
         else (c\<lparr>cd_remaining := cd_remaining c - d\<rparr>, False))
      else (c, False))"

text \<open>Modelled from the spec: the animation classes \<^verbatim>\<open>CellLockAnim\<close> and
  \<^verbatim>\<open>LineClearAnim\<close> (not among the sources). An animation is created with the
  arguments the well passes, lives for an internal duration, and is inactive once that
  duration has elapsed.\<close>

datatype anim_kind = CellLockAnim nat nat | LineClearAnim nat

record well_animation =
  anim_kind :: anim_kind
  anim_timer :: int

definition anim_update :: "int \<Rightarrow> well_animation \<Rightarrow> well_animation" where
  "anim_update d a = a\<lparr>anim_timer := anim_timer a - d\<rparr>"

definition isActive :: "well_animation \<Rightarrow> bool" where
  "isActive a = (0 < anim_timer a)"

text \<open>The constants and factories that \<^verbatim>\<open>Well.cpp\<close> takes from headers outside the
  sources: \<^verbatim>\<open>GameState::frame_duration\<close>, \<^verbatim>\<open>frame_duration_60Hz\<close>, \<^verbatim>\<open>GRAVITY_20G\<close>,
  \<^verbatim>\<open>PieceFactory::make_uptr\<close> and the durations of the two animations. They are
  parameters of the model.\<close>

record game_env =
  frame_duration :: int
  frame_duration_60Hz :: int
  GRAVITY_20G :: int
  make_uptr :: "piece_type \<Rightarrow> piece"
  cell_lock_duration :: int
  line_clear_duration :: int

subsection \<open>The state of \<^verbatim>\<open>Well\<close>\<close>

text \<open>
  The fields carry the names of the members of \<^verbatim>\<open>Well\<close>. \<open>matrix\<close> is the board, a
  \<^verbatim>\<open>std::array\<close> of rows of cells; its extents are those of the list of lists.
  \<open>keystates\<close> is a \<^verbatim>\<open>std::map\<close> whose five keys read through \<^verbatim>\<open>.at()\<close> exist from
  construction on and are never erased, so it is a total function; an absent key reads
  \<open>False\<close>. The observers are callbacks registered from outside; \<open>notify\<close> records the
  event in \<open>emitted\<close>, latest last, and the observers are taken not to call back into
  the well while it runs. \<open>pending_cleared_rows\<close> is a \<^verbatim>\<open>std::set\<close> of row indices:
  the ascending list of its elements, with \<open>insort_insert\<close> for \<^verbatim>\<open>insert\<close>.
\<close>

record well =
  gameover :: bool
  active_piece :: "piece option"
  active_piece_x :: int
  active_piece_y :: nat
  ghost_piece_y :: nat
  gravity_delay :: int
  gravity_timer :: int
  horizontal_delay_normal :: int
  horizontal_delay_turbo :: int
  horizontal_delay_current :: int
  horizontal_timer :: int
  das_timer :: int
  softdrop_delay :: int
  softdrop_timer :: int
  rotation_delay :: int
  rotation_timer :: int
  harddrop_locks_instantly :: bool
  lock_infinity :: bool
  lock_countdown :: countdown
  keystates :: "input_type \<Rightarrow> bool"
  previous_keystates :: "input_type \<Rightarrow> bool"
  skip_gravity :: bool
  matrix :: "cell list list"
  pending_cleared_rows :: "nat list"
  animations :: "well_animation list"
  blocking_anims :: "well_animation list"
  emitted :: "well_event list"

definition notify :: "well_event \<Rightarrow> well \<Rightarrow> well" where
  "notify e w = w\<lparr>emitted := emitted w @ [e]\<rparr>"

text \<open>\<^verbatim>\<open>matrix[0].size()\<close>, the width of the board.\<close>

definition matrix_cols :: "cell list list \<Rightarrow> nat" where
  "matrix_cols m = length (hd m)"

text \<open>The board as its type has it: at least one row, all rows of one width, and
  extents that an \<^verbatim>\<open>unsigned\<close> counts with room to spare.\<close>

definition matrix_ok :: "cell list list \<Rightarrow> bool" where
  "matrix_ok m = (m \<noteq> [] \<and> list_all (\<lambda>r. length r = matrix_cols m) m \<and>
     length m + 4 < 2 ^ 32 \<and> matrix_cols m + 4 < 2 ^ 31)"

section \<open>Collision\<close>

text \<open>\<^verbatim>\<open>Well::hasCollisionAt\<close>. \<open>board_has_mino_here\<close> is the local of that name: \<open>True\<close>
  outside the board, the occupancy of the cell inside.\<close>

definition board_has_mino_here :: "cell list list \<Rightarrow> nat \<Rightarrow> int \<Rightarrow> bool" where
  "board_has_mino_here m row cell =
     (if row < length m \<and> 0 \<le> cell \<and> cell < int (matrix_cols m)
      then m ! row ! nat cell \<noteq> None else True)"

text \<open>The inner loop over \<open>cell\<close>, with \<open>piece_gridx\<close> counting along.\<close>

function collision_cells ::
  "cell list list \<Rightarrow> grid \<Rightarrow> int \<Rightarrow> nat \<Rightarrow> nat \<Rightarrow> int \<Rightarrow> nat \<Rightarrow> bool option" where
  "collision_cells m g offset_x row piece_gridy cell piece_gridx =
     (if cell \<le> offset_x + 3 then
        (case grid_at g piece_gridy piece_gridx of
           None \<Rightarrow> None
         | Some piece_cell \<Rightarrow>
             if piece_cell \<noteq> None \<and> board_has_mino_here m row cell then Some True
             else collision_cells m g offset_x row piece_gridy (cell + 1) (piece_gridx + 1))
      else Some False)"
  by pat_completeness auto
termination
  by (relation "measure (\<lambda>(m, g, offset_x, row, piece_gridy, cell, piece_gridx).
        nat (offset_x + 4 - cell))") auto

declare collision_cells.simps [simp del]

lemma collision_cells_in_grid:
  "collision_cells m g offset_x row piece_gridy offset_x 0 = Some b \<Longrightarrow> piece_gridy < length g"
  by (subst (asm) collision_cells.simps) (simp add: grid_at_def split: if_splits)

text \<open>The outer loop over \<open>row\<close>, an \<^verbatim>\<open>unsigned\<close> compared with \<^verbatim>\<open>offset_y + 3\<close>, with
  \<open>piece_gridy\<close> counting along. It ends at the latest when \<^verbatim>\<open>.at(piece_gridy)\<close> throws.\<close>

function collision_rows ::
  "cell list list \<Rightarrow> grid \<Rightarrow> int \<Rightarrow> nat \<Rightarrow> nat \<Rightarrow> nat \<Rightarrow> bool option" where
  "collision_rows m g offset_x offset_y row piece_gridy =
     (if row \<le> u32 (int offset_y + 3) then
        (case collision_cells m g offset_x row piece_gridy offset_x 0 of
           None \<Rightarrow> None
         | Some True \<Rightarrow> Some True
         | Some False \<Rightarrow>
             collision_rows m g offset_x offset_y (u32 (int row + 1)) (piece_gridy + 1))
      else Some False)"
  by pat_completeness auto
termination
  by (relation "measure (\<lambda>(m, g, offset_x, offset_y, row, piece_gridy).
        length g - piece_gridy)") (auto dest: collision_cells_in_grid)

declare collision_rows.simps [simp del]

definition hasCollisionAt :: "well \<Rightarrow> int \<Rightarrow> nat \<Rightarrow> bool option" where
  "hasCollisionAt w offset_x offset_y =
     (if 0 \<le> offset_x + 3 \<and> offset_x < int (matrix_cols (matrix w))
         \<and> offset_y < length (matrix w) then
        (case active_piece w of
           None \<Rightarrow> None
         | Some p \<Rightarrow> collision_rows (matrix w) (currentGrid p) offset_x offset_y offset_y 0)
      else None)"


text \<open>\<^verbatim>\<open>Well::calculateGhostOffset\<close>. The loop ends when a row collides or the board
  ends; on a board that an \<^verbatim>\<open>unsigned\<close> cannot count it need not end at all.\<close>

partial_function (option) ghost_loop :: "well \<Rightarrow> well option" where
  "ghost_loop w =
     (if u32 (int (ghost_piece_y w) + 1) < length (matrix w) then
        do {
          collides \<leftarrow> hasCollisionAt w (active_piece_x w) (u32 (int (ghost_piece_y w) + 1));
          if \<not> collides then ghost_loop (w\<lparr>ghost_piece_y := u32 (int (ghost_piece_y w) + 1)\<rparr>)
          else Some w
        }
      else Some w)"

declare ghost_loop.simps [code]

definition calculateGhostOffset :: "well \<Rightarrow> well option" where
  "calculateGhostOffset w =
     (if active_piece w = None then None
      else ghost_loop (w\<lparr>ghost_piece_y := active_piece_y w\<rparr>))"

section \<open>Input state\<close>

text \<open>\<^verbatim>\<open>Well::resetDAS\<close> and \<^verbatim>\<open>Well::resetInput\<close>.\<close>

definition resetDAS :: "well \<Rightarrow> well" where
  "resetDAS w = w\<lparr>das_timer := horizontal_delay_normal w,
                  horizontal_delay_current := horizontal_delay_normal w\<rparr>"

definition resetInput :: "well \<Rightarrow> well" where
  "resetInput w = (resetDAS w)\<lparr>keystates := (\<lambda>key. False)\<rparr>"

section \<open>Locking and line clears\<close>

text \<open>\<^verbatim>\<open>Well::checkLineclear\<close>: the scan of all rows, then the emptying of the pending
  rows in ascending order, each visible one staging a blocking animation.\<close>

definition row_filled :: "cell list \<Rightarrow> bool" where
  "row_filled r = list_all (\<lambda>c. c \<noteq> None) r"

fun scan_rows :: "cell list list \<Rightarrow> nat list \<Rightarrow> nat list \<Rightarrow> nat list" where
  "scan_rows m [] pending = pending"
| "scan_rows m (row # rows) pending =
     scan_rows m rows (if row_filled (m ! row) then insort_insert row pending else pending)"

definition clear_row :: "game_env \<Rightarrow> well \<Rightarrow> nat \<Rightarrow> well" where
  "clear_row env w row =
     (let w1 = w\<lparr>matrix := (matrix w)[row := map (\<lambda>c. None) (matrix w ! row)]\<rparr>
      in if 2 \<le> row
         then w1\<lparr>blocking_anims := blocking_anims w1 @
                [\<lparr>anim_kind = LineClearAnim row, anim_timer = line_clear_duration env\<rparr>]\<rparr>
         else w1)"

definition checkLineclear :: "game_env \<Rightarrow> well \<Rightarrow> well option" where
  "checkLineclear env w =
     (if active_piece w \<noteq> None then None
      else
        let pending = scan_rows (matrix w) [0 ..< length (matrix w)] (pending_cleared_rows w);
            w1 = w\<lparr>pending_cleared_rows := pending\<rparr>
        in if 4 < length pending then None
           else if pending \<noteq> [] then Some (resetInput (foldl (clear_row env) w1 pending))
           else Some w1)"

text \<open>\<^verbatim>\<open>Well::lockAndReleasePiece\<close>. \<open>lock_cell\<close> is the body of the two loops for one
  \<open>row\<close> and \<open>cell\<close>: the bounds test with its \<^verbatim>\<open>continue\<close>, then the swap of the
  piece's cell with the board's. The index operators of the board are unchecked in the
  source; an index outside the board is \<open>None\<close> here. \<^verbatim>\<open>active_piece_x + cell\<close> is an
  \<^verbatim>\<open>int\<close> plus an \<^verbatim>\<open>unsigned\<close>, hence \<^verbatim>\<open>unsigned\<close>.\<close>

definition set_cell :: "piece \<Rightarrow> nat \<Rightarrow> nat \<Rightarrow> cell \<Rightarrow> piece" where
  "set_cell p row cell v =
     p\<lparr>frames := (frames p)[rotation p :=
          (currentGrid p)[row := (currentGrid p ! row)[cell := v]]]\<rparr>"

definition lock_cell :: "game_env \<Rightarrow> well \<Rightarrow> nat \<Rightarrow> nat \<Rightarrow> well option" where
  "lock_cell env w row cell =
     (let r = u32 (int (active_piece_y w) + int row);
          c = u32 (active_piece_x w + int cell)
      in if length (matrix w) \<le> r \<or> matrix_cols (matrix w) \<le> c
            \<or> active_piece_x w + int cell < 0 then Some w
         else
           (case active_piece w of
              None \<Rightarrow> None
            | Some p \<Rightarrow>
                (case grid_at (currentGrid p) row cell of
                   None \<Rightarrow> None
                 | Some None \<Rightarrow> Some w
                 | Some (Some mn) \<Rightarrow>
                     if c < length (matrix w ! r) then
                       let w1 = w\<lparr>matrix := (matrix w)[r := (matrix w ! r)[c := Some mn]],
                                  active_piece := Some (set_cell p row cell (matrix w ! r ! c))\<rparr>
                       in Some (if 2 \<le> r
                                then w1\<lparr>animations := animations w1 @
                                       [\<lparr>anim_kind = CellLockAnim (r - 2) c,
                                         anim_timer = cell_lock_duration env\<rparr>]\<rparr>
                                else w1)
                     else None)))"

function lock_cells :: "game_env \<Rightarrow> well \<Rightarrow> nat \<Rightarrow> nat \<Rightarrow> well option" where
  "lock_cells env w row cell =
     (if cell < 4 then
        (case lock_cell env w row cell of
           None \<Rightarrow> None
         | Some w' \<Rightarrow> lock_cells env w' row (cell + 1))
      else Some w)"
  by pat_completeness auto
termination
  by (relation "measure (\<lambda>(env, w, row, cell). 4 - cell)") auto

declare lock_cells.simps [simp del]

function lock_rows :: "game_env \<Rightarrow> well \<Rightarrow> nat \<Rightarrow> well option" where
  "lock_rows env w row =
     (if row < 4 then
        (case lock_cells env w row 0 of
           None \<Rightarrow> None
         | Some w' \<Rightarrow> lock_rows env w' (row + 1))
      else Some w)"
  by pat_completeness auto
termination
  by (relation "measure (\<lambda>(env, w, row). 4 - row)") auto

declare lock_rows.simps [simp del]

definition lockAndReleasePiece :: "game_env \<Rightarrow> well \<Rightarrow> well option" where
  "lockAndReleasePiece env w =
     do {
       w1 \<leftarrow> lock_rows env w 0;
       checkLineclear env
         (notify PIECE_LOCKED
            (w1\<lparr>active_piece := None, lock_countdown := cd_stop (lock_countdown w1)\<rparr>))
     }"

text \<open>\<^verbatim>\<open>Well::lockThenRequestNext\<close>.\<close>

definition lockThenRequestNext :: "game_env \<Rightarrow> well \<Rightarrow> well option" where
  "lockThenRequestNext env w =
     do {
       w1 \<leftarrow> lockAndReleasePiece env w;
       Some (if \<not> gameover w1 \<and> blocking_anims w1 = [] then notify NEXT_REQUESTED w1 else w1)
     }"

section \<open>Moves\<close>

text \<open>\<^verbatim>\<open>Well::isOnGround\<close>, \<^verbatim>\<open>Well::moveDownNow\<close>, \<^verbatim>\<open>Well::applyGravity\<close>,
  \<^verbatim>\<open>Well::hardDrop\<close>, \<^verbatim>\<open>Well::moveLeftNow\<close> and \<^verbatim>\<open>Well::moveRightNow\<close>.\<close>

definition isOnGround :: "well \<Rightarrow> bool option" where
  "isOnGround w =
     (if active_piece w = None then None
      else if \<not> u32 (int (active_piece_y w) + 1) < length (matrix w) then None
      else hasCollisionAt w (active_piece_x w) (u32 (int (active_piece_y w) + 1)))"

definition moveDownNow :: "game_env \<Rightarrow> well \<Rightarrow> well option" where
  "moveDownNow env w =
     (if active_piece w = None \<or> length (matrix w) \<le> u32 (int (active_piece_y w) + 1)
      then Some w
      else do {
        on_ground \<leftarrow> isOnGround w;
        if \<not> on_ground then Some (w\<lparr>active_piece_y := u32 (int (active_piece_y w) + 1)\<rparr>)
        else if \<not> harddrop_locks_instantly w \<and> cd_running (lock_countdown w)
        then lockThenRequestNext env w
        else Some w
      })"

definition applyGravity :: "game_env \<Rightarrow> well \<Rightarrow> well option" where
  "applyGravity env w = moveDownNow env w"

definition hardDrop :: "game_env \<Rightarrow> well \<Rightarrow> well option" where
  "hardDrop env w =
     (if active_piece w = None then None
      else do {
        w1 \<leftarrow> moveDownNow env (w\<lparr>active_piece_y := ghost_piece_y w\<rparr>);
        if harddrop_locks_instantly w1 then lockThenRequestNext env w1 else Some w1
      })"

definition moveLeftNow :: "well \<Rightarrow> well option" where
  "moveLeftNow w =
     (if active_piece w = None \<or> active_piece_x w - 1 \<le> - 3 then Some w
      else do {
        collides \<leftarrow> hasCollisionAt w (active_piece_x w - 1) (active_piece_y w);
        if \<not> collides then do {
          w1 \<leftarrow> calculateGhostOffset (w\<lparr>active_piece_x := active_piece_x w - 1\<rparr>);
          Some (if lock_infinity w1 then w1\<lparr>lock_countdown := cd_stop (lock_countdown w1)\<rparr>
                else w1)
        } else Some w
      })"

definition moveRightNow :: "well \<Rightarrow> well option" where
  "moveRightNow w =
     (if active_piece w = None \<or> int (matrix_cols (matrix w)) \<le> active_piece_x w + 1 then Some w
      else do {
        collides \<leftarrow> hasCollisionAt w (active_piece_x w + 1) (active_piece_y w);
        if \<not> collides then do {
          w1 \<leftarrow> calculateGhostOffset (w\<lparr>active_piece_x := active_piece_x w + 1\<rparr>);
          Some (if lock_infinity w1 then w1\<lparr>lock_countdown := cd_stop (lock_countdown w1)\<rparr>
                else w1)
        } else Some w
      })"


section \<open>Rotation and wall kicks\<close>

text \<open>\<^verbatim>\<open>Well::placeByWallKick\<close>. \<open>kick_to\<close> is the pair of assignments that accepts a
  candidate; \<^verbatim>\<open>active_piece_y - floor\<close> is an \<^verbatim>\<open>unsigned\<close> difference. \<open>kick_floor\<close>
  is the body of the loop for one \<open>floor\<close>: \<open>Some (Some w')\<close> when a candidate is
  accepted, \<open>Some None\<close> when the loop goes on.\<close>

definition kick_to :: "well \<Rightarrow> int \<Rightarrow> nat \<Rightarrow> well" where
  "kick_to w dx floor =
     w\<lparr>active_piece_x := active_piece_x w + dx,
       active_piece_y := u32 (int (active_piece_y w) - int floor)\<rparr>"

definition kick_floor :: "well \<Rightarrow> piece \<Rightarrow> nat \<Rightarrow> well option option" where
  "kick_floor w p floor =
     (let y = u32 (int (active_piece_y w) - int floor) in
      do {
        right1 \<leftarrow> hasCollisionAt w (active_piece_x w + 1) y;
        if \<not> right1 then Some (Some (kick_to w 1 floor))
        else do {
          left1 \<leftarrow> hasCollisionAt w (active_piece_x w - 1) y;
          if \<not> left1 then Some (Some (kick_to w (- 1) floor))
          else if ptype p = Type_I then
            do {
              right2 \<leftarrow>
                (if active_piece_x w + 2 < int (matrix_cols (matrix w))
                 then hasCollisionAt w (active_piece_x w + 2) y else Some True);
              if \<not> right2 then Some (Some (kick_to w 2 floor))
              else do {
                left2 \<leftarrow>
                  (if 0 \<le> active_piece_x w - 2
                   then hasCollisionAt w (active_piece_x w - 2) y else Some True);
                if \<not> left2 then Some (Some (kick_to w (- 2) floor)) else Some None
              }
            }
          else Some None
        }
      })"

function wallkick_floors :: "well \<Rightarrow> piece \<Rightarrow> nat \<Rightarrow> (bool \<times> well) option" where
  "wallkick_floors w p floor =
     (if floor < (if ptype p = Type_I then 3 else 2) then
        (case kick_floor w p floor of
           None \<Rightarrow> None
         | Some (Some w') \<Rightarrow> Some (True, w')
         | Some None \<Rightarrow> wallkick_floors w p (floor + 1))
      else Some (False, w))"
  by pat_completeness auto
termination
  by (relation "measure (\<lambda>(w, p, floor). 3 - floor)") (auto split: if_splits)

declare wallkick_floors.simps [simp del]

definition placeByWallKick :: "well \<Rightarrow> (bool \<times> well) option" where
  "placeByWallKick w =
     (case active_piece w of
        None \<Rightarrow> None
      | Some p \<Rightarrow> wallkick_floors w p 0)"

text \<open>\<^verbatim>\<open>Well::rotateCWNow\<close> and \<^verbatim>\<open>Well::rotateCCWNow\<close>. \<open>rotate_now\<close> is their common
  text, with the rotation and its inverse as arguments.\<close>

definition rotate_now :: "(piece \<Rightarrow> piece) \<Rightarrow> (piece \<Rightarrow> piece) \<Rightarrow> well \<Rightarrow> well option" where
  "rotate_now rot unrot w =
     (case active_piece w of
        None \<Rightarrow> Some w
      | Some p \<Rightarrow>
          let w1 = w\<lparr>active_piece := Some (rot p)\<rparr> in
          do {
            collides \<leftarrow> hasCollisionAt w1 (active_piece_x w1) (active_piece_y w1);
            kicked \<leftarrow> (if collides then placeByWallKick w1 else Some (True, w1));
            if \<not> fst kicked
            then Some ((snd kicked)\<lparr>active_piece := map_option unrot (active_piece (snd kicked))\<rparr>)
            else do {
              w2 \<leftarrow> calculateGhostOffset (snd kicked);
              Some (if lock_infinity w2 then w2\<lparr>lock_countdown := cd_stop (lock_countdown w2)\<rparr>
                    else w2)
            }
          })"

definition rotateCWNow :: "well \<Rightarrow> well option" where
  "rotateCWNow w = rotate_now rotateCW rotateCCW w"

definition rotateCCWNow :: "well \<Rightarrow> well option" where
  "rotateCCWNow w = rotate_now rotateCCW rotateCW w"

section \<open>The frame\<close>

text \<open>\<^verbatim>\<open>Well::updateAnimations\<close> and \<^verbatim>\<open>Well::updateKeystate\<close>.\<close>

definition updateAnimations :: "game_env \<Rightarrow> well \<Rightarrow> well" where
  "updateAnimations env w =
     w\<lparr>animations := filter isActive (map (anim_update (frame_duration env)) (animations w)),
       blocking_anims :=
         filter isActive (map (anim_update (frame_duration env)) (blocking_anims w))\<rparr>"

definition updateKeystate :: "well \<Rightarrow> input_event list \<Rightarrow> well" where
  "updateKeystate w events =
     w\<lparr>previous_keystates := keystates w,
       keystates := foldl (\<lambda>ks event. ks(ev_type event := ev_down event)) (keystates w) events\<rparr>"

text \<open>\<^verbatim>\<open>Well::handleKeys\<close>: first the loop over the events of the frame, presses and
  releases, then the rotation, horizontal and soft drop timers in this order.\<close>

definition handle_event :: "game_env \<Rightarrow> well \<Rightarrow> input_event \<Rightarrow> well option" where
  "handle_event env w event =
     (if ev_down event then
        (if ev_type event = UP \<or> ev_type event = GAME_HARDDROP then
           do { w1 \<leftarrow> hardDrop env w; Some (w1\<lparr>skip_gravity := True\<rparr>) }
         else if ev_type event = GAME_HOLD then
           Some ((notify HOLD_REQUESTED w)\<lparr>skip_gravity := True\<rparr>)
         else Some w)
      else
        (if ev_type event = LEFT \<or> ev_type event = RIGHT then Some (resetDAS w)
         else Some w))"

fun handle_events :: "game_env \<Rightarrow> well \<Rightarrow> input_event list \<Rightarrow> well option" where
  "handle_events env w [] = Some w"
| "handle_events env w (event # events) =
     (case handle_event env w event of
        None \<Rightarrow> None
      | Some w' \<Rightarrow> handle_events env w' events)"

definition handle_rotation :: "game_env \<Rightarrow> well \<Rightarrow> well option" where
  "handle_rotation env w =
     (let w1 = w\<lparr>rotation_timer := rotation_timer w - frame_duration env\<rparr> in
      if keystates w1 A \<noteq> keystates w1 B \<and> rotation_timer w1 \<le> 0 then
        do {
          w2 \<leftarrow> (if keystates w1 A then rotateCCWNow w1 else rotateCWNow w1);
          Some (w2\<lparr>rotation_timer := rotation_delay w2\<rparr>)
        }
      else Some w1)"

definition update_das :: "well \<Rightarrow> well" where
  "update_das w =
     (let w1 = w\<lparr>das_timer := das_timer w - horizontal_delay_normal w\<rparr>;
          w2 = (if das_timer w1 < 0
                then w1\<lparr>horizontal_delay_current := horizontal_delay_turbo w1\<rparr> else w1)
      in w2\<lparr>horizontal_timer := horizontal_delay_current w2\<rparr>)"

definition handle_horizontal :: "game_env \<Rightarrow> well \<Rightarrow> well option" where
  "handle_horizontal env w =
     (let w1 = w\<lparr>horizontal_timer := horizontal_timer w - frame_duration env\<rparr> in
      if horizontal_timer w1 \<le> 0 \<and> keystates w1 LEFT \<noteq> keystates w1 RIGHT then
        do {
          w2 \<leftarrow> (if keystates w1 LEFT then moveLeftNow w1 else moveRightNow w1);
          Some (update_das w2)
        }
      else Some w1)"

definition handle_softdrop :: "game_env \<Rightarrow> well \<Rightarrow> well option" where
  "handle_softdrop env w =
     (let w1 = w\<lparr>softdrop_timer := softdrop_timer w - frame_duration env\<rparr> in
      if keystates w1 DOWN \<and> softdrop_timer w1 \<le> 0 then
        do {
          w2 \<leftarrow> moveDownNow env w1;
          Some (w2\<lparr>skip_gravity := True, softdrop_timer := softdrop_delay w2\<rparr>)
        }
      else Some w1)"

definition handleKeys :: "game_env \<Rightarrow> well \<Rightarrow> input_event list \<Rightarrow> well option" where
  "handleKeys env w events =
     do {
       w1 \<leftarrow> handle_events env
               (w\<lparr>skip_gravity := (keystates w DOWN \<and> previous_keystates w DOWN)\<rparr>) events;
       w2 \<leftarrow> handle_rotation env w1;
       w3 \<leftarrow> handle_horizontal env w2;
       handle_softdrop env w3
     }"

text \<open>\<^verbatim>\<open>Well::updateGravity\<close>. The loop runs once for every full interval that has
  elapsed; with an interval that is not positive it never ends.\<close>

partial_function (option) gravity_loop :: "game_env \<Rightarrow> well \<Rightarrow> well option" where
  "gravity_loop env w =
     (if gravity_delay w \<le> gravity_timer w then
        do {
          w2 \<leftarrow> (if \<not> skip_gravity w
                 then applyGravity env (w\<lparr>gravity_timer := gravity_timer w - gravity_delay w\<rparr>)
                 else Some (w\<lparr>gravity_timer := gravity_timer w - gravity_delay w\<rparr>));
          gravity_loop env w2
        }
      else Some w)"

declare gravity_loop.simps [code]

definition updateGravity :: "game_env \<Rightarrow> well \<Rightarrow> well option" where
  "updateGravity env w =
     gravity_loop env (w\<lparr>gravity_timer := gravity_timer w + frame_duration env\<rparr>)"

text \<open>\<^verbatim>\<open>Well::updateLockDelay\<close>; the completion action of \<^verbatim>\<open>lock_countdown\<close> is
  \<^verbatim>\<open>lockThenRequestNext\<close>.\<close>

definition updateLockDelay :: "game_env \<Rightarrow> well \<Rightarrow> well option" where
  "updateLockDelay env w =
     do {
       on_ground \<leftarrow> isOnGround w;
       let c = (if on_ground then cd_unpause (lock_countdown w) else cd_stop (lock_countdown w));
           w1 = w\<lparr>lock_countdown := fst (cd_update (frame_duration env) c)\<rparr>
       in if snd (cd_update (frame_duration env) c) then lockThenRequestNext env w1 else Some w1
     }"


text \<open>\<^verbatim>\<open>Well::removeEmptyRows\<close>. \<open>pending_count\<close> is \<^verbatim>\<open>pending_cleared_rows.count\<close>
  at an \<^verbatim>\<open>int\<close>: the set holds row indices of the board, so a negative argument, which
  the conversion to the key type makes huge, is not in it. \<open>next_filled_row\<close> is the
  inner \<^verbatim>\<open>while\<close> loop, \<open>remove_loop\<close> the \<^verbatim>\<open>for\<close> loop, which starts at
  \<^verbatim>\<open>matrix.size()\<close>; the rows of the board are indexed unchecked.\<close>

definition pending_count :: "nat list \<Rightarrow> int \<Rightarrow> bool" where
  "pending_count pending row = (0 \<le> row \<and> nat row \<in> set pending)"

function next_filled_row :: "nat list \<Rightarrow> int \<Rightarrow> int" where
  "next_filled_row pending n =
     (if pending_count pending n then next_filled_row pending (n - 1) else n)"
  by pat_completeness auto
termination
  by (relation "measure (\<lambda>(pending, n). nat (n + 1))") (auto simp: pending_count_def)

declare next_filled_row.simps [simp del]

function remove_loop :: "well \<Rightarrow> int \<Rightarrow> well option" where
  "remove_loop w row =
     (if 0 \<le> row then
        (if \<not> pending_count (pending_cleared_rows w) row then remove_loop w (row - 1)
         else if next_filled_row (pending_cleared_rows w) row < 0 then Some w
         else if nat row < length (matrix w)
                 \<and> nat (next_filled_row (pending_cleared_rows w) row) < length (matrix w)
         then remove_loop
                (w\<lparr>matrix := (matrix w)
                      [nat row := matrix w ! nat (next_filled_row (pending_cleared_rows w) row),
                       nat (next_filled_row (pending_cleared_rows w) row) := matrix w ! nat row],
                   pending_cleared_rows :=
                     insort_insert (nat (next_filled_row (pending_cleared_rows w) row))
                       (pending_cleared_rows w)\<rparr>)
                (row - 1)
         else None)
      else Some w)"
  by pat_completeness auto
termination
  by (relation "measure (\<lambda>(w, row). nat (row + 1))") auto

declare remove_loop.simps [simp del]

definition removeEmptyRows :: "well \<Rightarrow> well option" where
  "removeEmptyRows w =
     (if pending_cleared_rows w = [] \<or> 4 < length (pending_cleared_rows w) then None
      else do {
        w1 \<leftarrow> remove_loop (notify (LINE_CLEAR (length (pending_cleared_rows w))) w)
                (int (length (matrix w)));
        Some (w1\<lparr>pending_cleared_rows := []\<rparr>)
      })"

text \<open>\<^verbatim>\<open>Well::update\<close>.\<close>

definition update :: "game_env \<Rightarrow> well \<Rightarrow> input_event list \<Rightarrow> well option" where
  "update env w events =
     (let w0 = updateAnimations env w in
      if gameover w0 then Some w0
      else if pending_cleared_rows w0 \<noteq> [] then
        (if blocking_anims w0 = [] then
           do {
             w1 \<leftarrow> removeEmptyRows w0;
             Some (notify NEXT_REQUESTED (w1\<lparr>lock_countdown := cd_stop (lock_countdown w1)\<rparr>))
           }
         else Some w0)
      else
        do {
          w1 \<leftarrow> handleKeys env (updateKeystate w0 events) events;
          if active_piece w1 = None then Some w1
          else do { w2 \<leftarrow> updateGravity env w1; updateLockDelay env w2 }
        })"

section \<open>Spawning\<close>

text \<open>\<^verbatim>\<open>Well::addPiece\<close>. \<open>spawn_loop\<close> is the \<^verbatim>\<open>for\<close> loop: it decrements
  \<^verbatim>\<open>active_piece_y\<close>, tests the row, and returns \<open>(True, w')\<close> where the function
  returns from inside the loop, \<open>(False, w')\<close> where the loop runs out.\<close>

function spawn_loop :: "well \<Rightarrow> (bool \<times> well) option" where
  "spawn_loop w =
     (if 0 < active_piece_y w then
        do {
          collides \<leftarrow> hasCollisionAt (w\<lparr>active_piece_y := active_piece_y w - 1\<rparr>)
                        (active_piece_x w) (active_piece_y w - 1);
          if \<not> collides then
            do {
              w1 \<leftarrow> calculateGhostOffset (w\<lparr>active_piece_y := active_piece_y w - 1\<rparr>);
              Some (True, w1)
            }
          else spawn_loop (w\<lparr>active_piece_y := active_piece_y w - 1\<rparr>)
        }
      else Some (False, w))"
  by pat_completeness auto
termination
  by (relation "measure active_piece_y") auto

declare spawn_loop.simps [simp del]

definition addPiece :: "game_env \<Rightarrow> well \<Rightarrow> piece_type \<Rightarrow> well option" where
  "addPiece env w type =
     (if active_piece w \<noteq> None then None
      else do {
        placed \<leftarrow> spawn_loop (w\<lparr>active_piece := Some (make_uptr env type),
                                  active_piece_x := 3, active_piece_y := 3\<rparr>);
        if fst placed then Some (snd placed)
        else do {
          w1 \<leftarrow> lockAndReleasePiece env (snd placed);
          Some (w1\<lparr>gameover := True\<rparr>)
        }
      })"

text \<open>\<^verbatim>\<open>Well::deletePiece\<close> and \<^verbatim>\<open>Well::setGravity\<close>.\<close>

definition deletePiece :: "well \<Rightarrow> well" where
  "deletePiece w = w\<lparr>active_piece := None\<rparr>"

definition setGravity :: "game_env \<Rightarrow> well \<Rightarrow> int \<Rightarrow> well" where
  "setGravity env w duration =
     w\<lparr>gravity_delay := max duration (GRAVITY_20G env),
       softdrop_delay := max duration (GRAVITY_20G env) div 20\<rparr>"

text \<open>The constructor \<^verbatim>\<open>Well::Well\<close>. The extents of the board are those of the
  member's type, declared in the header; they are arguments here. \<open>skip_gravity\<close> has no
  initialiser in the constructor and is written by \<open>handleKeys\<close> before it is read.\<close>

definition Well :: "game_env \<Rightarrow> nat \<Rightarrow> nat \<Rightarrow> well" where
  "Well env rows cols =
     \<lparr>gameover = False, active_piece = None, active_piece_x = 0, active_piece_y = 0,
      ghost_piece_y = 0,
      gravity_delay = frame_duration_60Hz env * 64, gravity_timer = 0,
      horizontal_delay_normal = frame_duration_60Hz env * 14,
      horizontal_delay_turbo = frame_duration_60Hz env * 4,
      horizontal_delay_current = frame_duration_60Hz env * 14,
      horizontal_timer = 0, das_timer = frame_duration_60Hz env * 14,
      softdrop_delay = frame_duration_60Hz env * 64 div 20, softdrop_timer = 0,
      rotation_delay = frame_duration_60Hz env * 12, rotation_timer = 0,
      harddrop_locks_instantly = True, lock_infinity = True,
      lock_countdown = \<lparr>cd_interval = frame_duration_60Hz env * 30,
                         cd_remaining = frame_duration_60Hz env * 30, cd_state = Stopped\<rparr>,
      keystates = (\<lambda>key. False), previous_keystates = (\<lambda>key. False),
      skip_gravity = False,
      matrix = replicate rows (replicate cols None),
      pending_cleared_rows = [], animations = [], blocking_anims = [], emitted = []\<rparr>"

section \<open>The piece supply\<close>

text \<open>
  \<^verbatim>\<open>PieceQueue\<close>. \<open>possible_pieces\<close> is the array of that name at file scope, which
  \<^verbatim>\<open>std::random_shuffle\<close> permutes in place. The outcome of a shuffle is not determined
  by the program: it is the argument \<open>shuffled\<close> of \<open>generate_pieces\<close>, an arrangement
  of the array's elements. \<^verbatim>\<open>next\<close> takes the outcome of the shuffle that it may
  perform. \<^verbatim>\<open>piece_storage\<close> serves drawing only and is left out.
\<close>

record piece_queue_state =
  displayed_piece_count :: nat
  piece_queue :: "piece_type list"
  possible_pieces :: "piece_type list"

definition generate_pieces :: "piece_type list \<Rightarrow> piece_queue_state \<Rightarrow> piece_queue_state" where
  "generate_pieces shuffled q =
     q\<lparr>possible_pieces := shuffled, piece_queue := piece_queue q @ shuffled\<rparr>"

definition PieceQueue :: "piece_type list \<Rightarrow> nat \<Rightarrow> piece_type list \<Rightarrow> piece_queue_state" where
  "PieceQueue pieces n shuffled =
     generate_pieces shuffled
       \<lparr>displayed_piece_count = n, piece_queue = [], possible_pieces = pieces\<rparr>"

text \<open>\<^verbatim>\<open>PieceQueue::next\<close>: \<^verbatim>\<open>front()\<close> of an empty queue and the failed assertion are
  \<open>None\<close>.\<close>

definition "next" :: "piece_type list \<Rightarrow> piece_queue_state \<Rightarrow> (piece_type \<times> piece_queue_state) option" where
  "next shuffled q =
     (case piece_queue q of
        [] \<Rightarrow> None
      | piece # rest \<Rightarrow>
          let q1 = q\<lparr>piece_queue := rest\<rparr>;
              q2 = (if length (piece_queue q1) \<le> displayed_piece_count q1
                    then generate_pieces shuffled q1 else q1)
          in if displayed_piece_count q2 < length (piece_queue q2) then Some (piece, q2)
             else None)"

text \<open>A run of the supply: successive calls of \<^verbatim>\<open>next\<close>, one shuffle outcome for each,
  and the pieces they return.\<close>

fun draws :: "piece_queue_state \<Rightarrow> piece_type list list \<Rightarrow> piece_type list option" where
  "draws q [] = Some []"
| "draws q (shuffled # rest) =
     (case next shuffled q of
        None \<Rightarrow> None
      | Some (piece, q') \<Rightarrow> map_option ((#) piece) (draws q' rest))"


text \<open>A bag: an arrangement of the seven types.\<close>

definition bag :: "piece_type list \<Rightarrow> bool" where
  "bag s = (mset s = mset allTypes)"

section \<open>Example states\<close>

text \<open>A piece table in the shape the factory uses: for each type four 4x4 grids, one
  per rotation state, written as rows of characters. The shapes are those of the
  standard rotation system.\<close>

definition grid_of :: "piece_type \<Rightarrow> string list \<Rightarrow> grid" where
  "grid_of t rows = map (map (\<lambda>ch. if ch = CHR ''X'' then Some (Mino t) else None)) rows"

definition shapes :: "piece_type \<Rightarrow> string list list" where
  "shapes t = (case t of
     Type_I \<Rightarrow> [[''....'', ''XXXX'', ''....'', ''....''], [''..X.'', ''..X.'', ''..X.'', ''..X.''],
                [''....'', ''....'', ''XXXX'', ''....''], [''.X..'', ''.X..'', ''.X..'', ''.X..'']]
   | Type_J \<Rightarrow> [[''X...'', ''XXX.'', ''....'', ''....''], [''.XX.'', ''.X..'', ''.X..'', ''....''],
                [''....'', ''XXX.'', ''..X.'', ''....''], [''.X..'', ''.X..'', ''XX..'', ''....'']]
   | Type_L \<Rightarrow> [[''..X.'', ''XXX.'', ''....'', ''....''], [''.X..'', ''.X..'', ''.XX.'', ''....''],
                [''....'', ''XXX.'', ''X...'', ''....''], [''XX..'', ''.X..'', ''.X..'', ''....'']]
   | Type_O \<Rightarrow> [[''.XX.'', ''.XX.'', ''....'', ''....''], [''.XX.'', ''.XX.'', ''....'', ''....''],
                [''.XX.'', ''.XX.'', ''....'', ''....''], [''.XX.'', ''.XX.'', ''....'', ''....'']]
   | Type_S \<Rightarrow> [[''.XX.'', ''XX..'', ''....'', ''....''], [''.X..'', ''.XX.'', ''..X.'', ''....''],
                [''....'', ''.XX.'', ''XX..'', ''....''], [''X...'', ''XX..'', ''.X..'', ''....'']]
   | Type_T \<Rightarrow> [[''.X..'', ''XXX.'', ''....'', ''....''], [''.X..'', ''.XX.'', ''.X..'', ''....''],
                [''....'', ''XXX.'', ''.X..'', ''....''], [''.X..'', ''XX..'', ''.X..'', ''....'']]
   | Type_Z \<Rightarrow> [[''XX..'', ''.XX.'', ''....'', ''....''], [''..X.'', ''.XX.'', ''.X..'', ''....''],
                [''....'', ''XX..'', ''.XX.'', ''....''], [''.X..'', ''XX..'', ''X...'', ''....'']])"

definition example_piece :: "piece_type \<Rightarrow> piece" where
  "example_piece t = \<lparr>ptype = t, rotation = 0, frames = map (grid_of t) (shapes t)\<rparr>"

text \<open>An environment with a frame of 1000 ticks, and the well as constructed on a board
  of 22 rows and 10 columns.\<close>

definition example_env :: game_env where
  "example_env = \<lparr>frame_duration = 1000, frame_duration_60Hz = 1000, GRAVITY_20G = 50,
     make_uptr = example_piece, cell_lock_duration = 4000, line_clear_duration = 20000\<rparr>"

definition empty_well :: well where
  "empty_well = Well example_env 22 10"

text \<open>A board from rows of characters, \<open>.\<close> for an empty cell.\<close>

definition board_of :: "string list \<Rightarrow> cell list list" where
  "board_of rows = map (map (\<lambda>ch. if ch = CHR ''.'' then None else Some (Mino Type_O))) rows"


text \<open>The well with a T piece at its spawn position.\<close>

definition falling_T :: well where
  "falling_T = empty_well\<lparr>active_piece := Some (example_piece Type_T),
     active_piece_x := 3, active_piece_y := 2, ghost_piece_y := 20\<rparr>"

text \<open>A run of eight draws with a preview of three pieces. The first bag is in
  declaration order; the bag that the fourth call shuffles begins with the Z piece.\<close>

definition bag_Z_first :: "piece_type list" where
  "bag_Z_first = [Type_Z, Type_I, Type_J, Type_L, Type_O, Type_S, Type_T]"

text \<open>The invariant of the two loops of \<open>lock_rows\<close>, after the first \<open>k\<close> cells of
  the grid in reading order: position and extents are as at the start, the cells of the
  piece not yet visited are as at the start, and the board differs from the start
  exactly at the targets of the occupied cells visited.\<close>

definition lock_inv :: "well \<Rightarrow> piece \<Rightarrow> nat \<Rightarrow> well \<Rightarrow> bool" where
  "lock_inv w p k w' =
     (active_piece_x w' = active_piece_x w \<and> active_piece_y w' = active_piece_y w
      \<and> length (matrix w') = length (matrix w)
      \<and> (\<forall>i<length (matrix w). length (matrix w' ! i) = length (matrix w ! i))
      \<and> (\<exists>p'. active_piece w' = Some p' \<and> grid_ok (currentGrid p')
            \<and> (\<forall>r<4. \<forall>c<4. k \<le> 4 * r + c \<longrightarrow> currentGrid p' ! r ! c = currentGrid p ! r ! c))
      \<and> (\<forall>i<length (matrix w). \<forall>j<matrix_cols (matrix w).
            matrix w' ! i ! j =
              (if \<exists>r<4. \<exists>c<4. 4 * r + c < k \<and> i = active_piece_y w + r
                     \<and> int j = active_piece_x w + int c \<and> currentGrid p ! r ! c \<noteq> None
               then currentGrid p ! (i - active_piece_y w) ! nat (int j - active_piece_x w)
               else matrix w ! i ! j)))"

text \<open>A T piece on the floor of the empty board, its left column off the board.\<close>

definition grounded_T :: well where
  "grounded_T = empty_well\<lparr>active_piece := Some (example_piece Type_T),
     active_piece_x := - 1, active_piece_y := 20, ghost_piece_y := 20\<rparr>"

text \<open>The wall kick search as a search through a list. \<open>first_free\<close> tests the
  candidates, pairs of a column shift and a floor, in the order of the list and returns
  the first one that \<open>hasCollisionAt\<close> reports free; \<open>accept_kick\<close> is the result of
  \<^verbatim>\<open>placeByWallKick\<close> for the outcome of the search.\<close>

fun first_free :: "well \<Rightarrow> (int \<times> nat) list \<Rightarrow> (int \<times> nat) option option" where
  "first_free w [] = Some None"
| "first_free w ((dx, floor) # cs) =
     (case hasCollisionAt w (active_piece_x w + dx) (u32 (int (active_piece_y w) - int floor)) of
        None \<Rightarrow> None
      | Some collides \<Rightarrow> if \<not> collides then Some (Some (dx, floor)) else first_free w cs)"

definition accept_kick :: "well \<Rightarrow> (int \<times> nat) option \<Rightarrow> bool \<times> well" where
  "accept_kick w found = (case found of None \<Rightarrow> (False, w)
     | Some (dx, floor) \<Rightarrow> (True, kick_to w dx floor))"

text \<open>The candidates in the words of the specification: for the floors 0 and 1, and
  floor 2 for the I piece, the shifts \<open>+1\<close>, \<open>-1\<close> and for the I piece \<open>+2\<close>, \<open>-2\<close>.\<close>

definition kick_candidates_spec :: "piece_type \<Rightarrow> (int \<times> nat) list" where
  "kick_candidates_spec t =
     concat (map (\<lambda>floor. [(1, floor), (- 1, floor)]
                   @ (if t = Type_I then [(2, floor), (- 2, floor)] else []))
               [0 ..< (if t = Type_I then 3 else 2)])"

text \<open>The candidates that the code tests: the shift \<open>+2\<close> only if it leaves the origin of
  the grid left of the right edge, the shift \<open>-2\<close> only if it leaves the origin at a
  column of the board.\<close>

definition kick_candidates :: "well \<Rightarrow> piece_type \<Rightarrow> (int \<times> nat) list" where
  "kick_candidates w t =
     concat (map (\<lambda>floor. [(1, floor), (- 1, floor)]
                   @ (if t = Type_I then
                        (if active_piece_x w + 2 < int (matrix_cols (matrix w))
                         then [(2, floor)] else [])
                        @ (if 0 \<le> active_piece_x w - 2 then [(- 2, floor)] else [])
                      else []))
               [0 ..< (if t = Type_I then 3 else 2)])"

definition floor_candidates :: "well \<Rightarrow> piece_type \<Rightarrow> nat \<Rightarrow> (int \<times> nat) list" where
  "floor_candidates w t floor =
     [(1, floor), (- 1, floor)]
       @ (if t = Type_I then
            (if active_piece_x w + 2 < int (matrix_cols (matrix w)) then [(2, floor)] else [])
            @ (if 0 \<le> active_piece_x w - 2 then [(- 2, floor)] else [])
          else [])"

text \<open>A board with two ledges over columns 2 to 5, in rows 10 and 13, and an I piece
  lying between them at column 1, in rotation state 0 (\<open>cramped_I\<close>) and in rotation
  state 2 (\<open>cramped_I2\<close>).\<close>

definition ledge_board :: "cell list list" where
  "ledge_board = board_of (replicate 10 ''..........'' @ [''..XXXX....'']
     @ replicate 2 ''..........'' @ [''..XXXX....''] @ replicate 8 ''..........'')"

definition cramped_I :: well where
  "cramped_I = empty_well\<lparr>active_piece := Some (example_piece Type_I),
     active_piece_x := 1, active_piece_y := 10, ghost_piece_y := 11, matrix := ledge_board\<rparr>"


text \<open>An upright I piece at the right wall of the empty board.\<close>

definition wall_I :: well where
  "wall_I = empty_well\<lparr>active_piece := Some ((example_piece Type_I)\<lparr>rotation := 1\<rparr>),
     active_piece_x := 7, active_piece_y := 5, ghost_piece_y := 18\<rparr>"

text \<open>What the loops of \<open>lock_rows\<close> leave alone: every field but the board, the piece
  and the list of animations.\<close>

definition lock_frame :: "well \<Rightarrow> well \<Rightarrow> bool" where
  "lock_frame w w' =
     (w' = w\<lparr>matrix := matrix w', active_piece := active_piece w', animations := animations w'\<rparr>)"

text \<open>A board with the cells above and below the middle of a T piece at the top left
  taken, and row 1 complete except for the three columns of that piece.\<close>

definition brimming :: well where
  "brimming = empty_well\<lparr>matrix := board_of ([''....X.....'', ''XXX...XXXX'', ''....X.....'']
     @ replicate 19 ''..........'')\<rparr>"

text \<open>The state in which \<open>handleKeys\<close> reaches the horizontal timer, in a frame whose only
  event is the press of \<open>key\<close> and before which no key was held.\<close>

definition before_horizontal :: "game_env \<Rightarrow> well \<Rightarrow> input_type \<Rightarrow> well" where
  "before_horizontal env w key =
     w\<lparr>previous_keystates := keystates w, keystates := (keystates w)(key := True),
       skip_gravity := False, rotation_timer := rotation_timer w - frame_duration env\<rparr>"

text \<open>Successive frames: one call of \<^verbatim>\<open>update\<close> for each list of events.\<close>

fun run_frames :: "game_env \<Rightarrow> well \<Rightarrow> input_event list list \<Rightarrow> well option" where
  "run_frames env w [] = Some w"
| "run_frames env w (events # rest) =
     (case update env w events of None \<Rightarrow> None | Some w' \<Rightarrow> run_frames env w' rest)"

text \<open>What the rotation and the horizontal move leave alone.\<close>

definition input_frame :: "well \<Rightarrow> well \<Rightarrow> bool" where
  "input_frame w w' =
     (skip_gravity w' = skip_gravity w \<and> keystates w' = keystates w
      \<and> softdrop_timer w' = softdrop_timer w)"

text \<open>The presses that \<open>handleKeys\<close> answers by setting \<open>skip_gravity\<close>.\<close>

definition skipping_press :: "input_event \<Rightarrow> bool" where
  "skipping_press e =
     (ev_down e \<and> (ev_type e = UP \<or> ev_type e = GAME_HARDDROP \<or> ev_type e = GAME_HOLD))"

text \<open>The T piece at its spawn position, one frame before the gravity timer completes
  its interval (\<open>due_T\<close>), and the same with DOWN held since the frame before and the
  soft drop timer two frames from its end (\<open>holding_down\<close>).\<close>

definition due_T :: well where
  "due_T = falling_T\<lparr>gravity_timer := 63000\<rparr>"

definition holding_down :: well where
  "holding_down = due_T\<lparr>keystates := (\<lambda>key. key = DOWN),
     previous_keystates := (\<lambda>key. key = DOWN), softdrop_timer := 2000\<rparr>"

text \<open>The rows of a board above row \<open>k\<close> that are not pending, from the top down.\<close>

definition kept_rows :: "nat \<Rightarrow> cell list list \<Rightarrow> nat list \<Rightarrow> cell list list" where
  "kept_rows k m pending = map ((!) m) (filter (\<lambda>i. i \<notin> set pending) [0 ..< k])"

text \<open>A well between the detection of two full rows, 19 and 21, and their removal: the
  rows are emptied and pending, and their animations end with the next frame.\<close>

definition clearing :: well where
  "clearing = empty_well\<lparr>
     matrix := board_of (replicate 18 ''..........''
       @ [''XX.......X'', ''..........'', ''X.X.......'', ''..........'']),
     pending_cleared_rows := [19, 21],
     blocking_anims := [\<lparr>anim_kind = LineClearAnim 19, anim_timer = 1000\<rparr>,
                        \<lparr>anim_kind = LineClearAnim 21, anim_timer = 1000\<rparr>]\<rparr>"

text \<open>The soft drop steps of \<open>k\<close> frames in which DOWN is held, counted on the timer of
  \<^verbatim>\<open>handleKeys\<close>: each frame takes the frame duration \<open>fd\<close> off the timer \<open>t\<close>, and a
  timer that has run out is a step and restarts at the delay \<open>D\<close>.\<close>

fun softdrop_steps :: "int \<Rightarrow> int \<Rightarrow> int \<Rightarrow> nat \<Rightarrow> nat" where
  "softdrop_steps fd D t 0 = 0"
| "softdrop_steps fd D t (Suc k) =
     (if t \<le> fd then Suc (softdrop_steps fd D D k) else softdrop_steps fd D (t - fd) k)"

text \<open>What a frame with DOWN held leaves as it is, while the piece is in the air.\<close>

definition held_frame :: "well \<Rightarrow> well \<Rightarrow> bool" where
  "held_frame w w' =
     (active_piece w' = active_piece w \<and> active_piece_x w' = active_piece_x w
      \<and> matrix w' = matrix w \<and> gameover w' = gameover w
      \<and> pending_cleared_rows w' = pending_cleared_rows w
      \<and> gravity_delay w' = gravity_delay w \<and> softdrop_delay w' = softdrop_delay w)"

section \<open>Collision: the result of \<^verbatim>\<open>hasCollisionAt\<close>\<close>

lemma u32_of_nat: "n < 2 ^ 32 \<Longrightarrow> u32 (int n) = n"
  unfolding u32_def by (simp add: nat_mod_distrib flip: of_nat_mod)

lemma u32_plus: "n + k < 2 ^ 32 \<Longrightarrow> u32 (int n + int k) = n + k"
  using u32_of_nat [of "n + k"] by simp

lemma collision_cells_eq:
  assumes "piece_gridy < length g" and "length (g ! piece_gridy) = 4"
  shows "gx \<le> 4 \<Longrightarrow> collision_cells m g ox row piece_gridy (ox + int gx) gx =
     Some (\<exists>c. gx \<le> c \<and> c < 4 \<and> g ! piece_gridy ! c \<noteq> None
              \<and> board_has_mino_here m row (ox + int c))"
proof (induction "4 - gx" arbitrary: gx)
  case 0
  then have "gx = 4" by simp
  then show ?case by (subst collision_cells.simps) simp
next
  case (Suc k)
  then have lt: "gx < 4" and k: "k = 4 - Suc gx" by simp_all
  have step: "collision_cells m g ox row piece_gridy (ox + int (Suc gx)) (Suc gx) =
     Some (\<exists>c. Suc gx \<le> c \<and> c < 4 \<and> g ! piece_gridy ! c \<noteq> None
              \<and> board_has_mino_here m row (ox + int c))"
    using Suc.hyps(1) [OF k] lt by simp
  have split: "\<And>P. (\<exists>c. gx \<le> c \<and> P c) \<longleftrightarrow> P gx \<or> (\<exists>c. Suc gx \<le> c \<and> P c)"
    by (metis Suc_leD Suc_leI le_refl nat_less_le)
  show ?case
    using lt assms step
    by (subst collision_cells.simps, subst split)
       (auto simp: grid_at_def add.commute add.left_commute)
qed

lemma collision_rows_eq:
  assumes "grid_ok g" and "offset_y + 4 < 2 ^ 32"
  shows "gy \<le> 4 \<Longrightarrow> collision_rows m g ox offset_y (offset_y + gy) gy =
     Some (\<exists>r. gy \<le> r \<and> r < 4 \<and> (\<exists>c<4. g ! r ! c \<noteq> None
              \<and> board_has_mino_here m (offset_y + r) (ox + int c)))"
proof (induction "4 - gy" arbitrary: gy)
  case 0
  then have "gy = 4" by simp
  moreover have "u32 (int offset_y + 3) = offset_y + 3"
    using assms(2) u32_plus [of offset_y 3] by simp
  ultimately show ?case by (subst collision_rows.simps) simp
next
  case (Suc k)
  define Q where "Q r = (\<exists>c<4. g ! r ! c \<noteq> None
      \<and> board_has_mino_here m (offset_y + r) (ox + int c))" for r
  from Suc have lt: "gy < 4" and k: "k = 4 - Suc gy" by simp_all
  have bound: "u32 (int offset_y + 3) = offset_y + 3"
    using assms(2) u32_plus [of offset_y 3] by simp
  have next_row: "u32 (int offset_y + int gy + 1) = Suc (offset_y + gy)"
  proof -
    have "offset_y + gy + 1 < 2 ^ 32" using assms(2) lt by simp
    from u32_plus [OF this] show ?thesis by simp
  qed
  have len: "gy < length g" "length (g ! gy) = 4"
    using assms(1) lt by (simp_all add: grid_ok_def list_all_length)
  have cells: "collision_cells m g ox (offset_y + gy) gy ox 0 = Some (Q gy)"
    using collision_cells_eq [OF len, of 0 m ox "offset_y + gy"] by (simp add: Q_def)
  have step: "collision_rows m g ox offset_y (Suc (offset_y + gy)) (Suc gy) =
     Some (\<exists>r. Suc gy \<le> r \<and> r < 4 \<and> Q r)"
    using Suc.hyps(1) [OF k] lt by (simp add: Q_def)
  have split: "(\<exists>r. gy \<le> r \<and> r < 4 \<and> Q r) \<longleftrightarrow> Q gy \<or> (\<exists>r. Suc gy \<le> r \<and> r < 4 \<and> Q r)"
    using lt by (metis Suc_leD Suc_leI le_refl nat_less_le)
  have "collision_rows m g ox offset_y (offset_y + gy) gy =
      (if Q gy then Some True else Some (\<exists>r. Suc gy \<le> r \<and> r < 4 \<and> Q r))"
    using lt by (subst collision_rows.simps) (simp add: bound next_row cells step)
  also have "\<dots> = Some (\<exists>r. gy \<le> r \<and> r < 4 \<and> Q r)"
    by (simp add: split)
  finally show ?case by (simp add: Q_def)
qed

lemma board_has_mino_here_iff:
  "board_has_mino_here m row cell \<longleftrightarrow>
     length m \<le> row \<or> cell < 0 \<or> int (matrix_cols m) \<le> cell \<or> m ! row ! nat cell \<noteq> None"
  by (auto simp: board_has_mino_here_def)

lemma hasCollisionAt_result:
  assumes "active_piece w = Some p" and "grid_ok (currentGrid p)"
    and "0 \<le> offset_x + 3" and "offset_x < int (matrix_cols (matrix w))"
    and "offset_y < length (matrix w)" and "length (matrix w) + 4 < 2 ^ 32"
  shows "hasCollisionAt w offset_x offset_y =
     Some (\<exists>r<4. \<exists>c<4. currentGrid p ! r ! c \<noteq> None \<and>
        (length (matrix w) \<le> offset_y + r \<or> offset_x + int c < 0
          \<or> int (matrix_cols (matrix w)) \<le> offset_x + int c
          \<or> matrix w ! (offset_y + r) ! nat (offset_x + int c) \<noteq> None))"
proof -
  have "offset_y + 4 < 2 ^ 32" using assms(5,6) by simp
  from collision_rows_eq [OF assms(2) this, of 0 "matrix w" offset_x]
  have "collision_rows (matrix w) (currentGrid p) offset_x offset_y offset_y 0 =
     Some (\<exists>r<4. \<exists>c<4. currentGrid p ! r ! c \<noteq> None \<and>
        board_has_mino_here (matrix w) (offset_y + r) (offset_x + int c))"
    by simp
  then show ?thesis
    using assms(1,3,4,5)
    by (simp add: hasCollisionAt_def board_has_mino_here_iff)
qed


text \<open>Claim C1. With a piece on the field whose current grid is 4x4, and an offset
  that passes the assertions of \<^verbatim>\<open>hasCollisionAt\<close>, the function returns, and returns
  true exactly when some occupied cell of the grid, placed at the offset, lies at or
  below the end of the board, left of column 0, right of the last column, or on an
  occupied cell of the board. An occupied grid cell over an empty cell inside the board
  contributes nothing, and without such a cell the result is false.\<close>

theorem hasCollisionAt_iff:
  assumes "active_piece w = Some p" and "grid_ok (currentGrid p)"
    and "0 \<le> offset_x + 3" and "offset_x < int (matrix_cols (matrix w))"
    and "offset_y < length (matrix w)" and "length (matrix w) + 4 < 2 ^ 32"
  shows "hasCollisionAt w offset_x offset_y =
     Some (\<exists>r<4. \<exists>c<4. currentGrid p ! r ! c \<noteq> None \<and>
        (length (matrix w) \<le> offset_y + r \<or> offset_x + int c < 0
          \<or> int (matrix_cols (matrix w)) \<le> offset_x + int c
          \<or> matrix w ! (offset_y + r) ! nat (offset_x + int c) \<noteq> None))"
  using assms by (rule hasCollisionAt_result)

theorem hasCollisionAt_iff_witness:
  "active_piece falling_T = Some (example_piece Type_T)
   \<and> grid_ok (currentGrid (example_piece Type_T))
   \<and> (0::int) \<le> 8 + 3 \<and> 8 < int (matrix_cols (matrix falling_T))
   \<and> 2 < length (matrix falling_T) \<and> length (matrix falling_T) + 4 < 2 ^ 32
   \<and> hasCollisionAt falling_T 8 2 = Some True"
proof -
  have h1: "active_piece falling_T = Some (example_piece Type_T)"
    by (simp add: falling_T_def)
  have h2: "grid_ok (currentGrid (example_piece Type_T))"
    by code_simp
  have h3: "(0::int) \<le> 8 + 3" by simp
  have h4: "8 < int (matrix_cols (matrix falling_T))"
    by (simp add: falling_T_def empty_well_def Well_def matrix_cols_def)
  have h5: "2 < length (matrix falling_T)"
    by (simp add: falling_T_def empty_well_def Well_def)
  have h6: "length (matrix falling_T) + 4 < 2 ^ 32"
    by (simp add: falling_T_def empty_well_def Well_def)
  have cols: "matrix_cols (matrix falling_T) = 10"
    by (simp add: falling_T_def empty_well_def Well_def matrix_cols_def)
  have occupied: "currentGrid (example_piece Type_T) ! 1 ! 2 \<noteq> None"
    by code_simp
  have "(1::nat) < 4 \<and> (2::nat) < 4 \<and> currentGrid (example_piece Type_T) ! 1 ! 2 \<noteq> None
      \<and> int (matrix_cols (matrix falling_T)) \<le> 8 + int 2"
    using occupied by (simp add: cols)
  then have "hasCollisionAt falling_T 8 2 = Some True"
    unfolding hasCollisionAt_iff [OF h1 h2 h3 h4 h5 h6] by blast
  with h1 h2 h3 h4 h5 h6 show ?thesis by simp
qed


section \<open>The piece supply: bags\<close>

lemma bag_length: "bag s \<Longrightarrow> length s = 7"
  unfolding bag_def by (drule mset_eq_length) (simp add: allTypes_def)

lemma next_Some:
  assumes "next shuffled q = Some (piece, q')"
  shows "piece # piece_queue q' = piece_queue q
       \<or> piece # piece_queue q' = piece_queue q @ shuffled"
  using assms
  by (auto simp: next_def generate_pieces_def Let_def split: list.splits if_splits)

lemma draws_prefix:
  "draws q outcomes = Some ds \<Longrightarrow> list_all bag outcomes \<Longrightarrow>
     \<exists>bs rest. list_all bag bs \<and> piece_queue q @ concat bs = ds @ rest"
proof (induction outcomes arbitrary: q ds)
  case Nil
  then show ?case by (auto intro: exI [of _ "[]"])
next
  case (Cons shuffled outcomes)
  from Cons.prems(1) obtain piece q' ds' where
    nx: "next shuffled q = Some (piece, q')" and dr: "draws q' outcomes = Some ds'"
    and ds: "ds = piece # ds'"
    by (auto split: option.splits)
  from Cons.prems(2) have b: "bag shuffled" and bs: "list_all bag outcomes" by simp_all
  from Cons.IH [OF dr bs] obtain bs' rest where
    ok: "list_all bag bs'" and eq: "piece_queue q' @ concat bs' = ds' @ rest" by blast
  from next_Some [OF nx] show ?case
  proof
    assume "piece # piece_queue q' = piece_queue q"
    then have "piece_queue q @ concat bs' = ds @ rest" using eq ds by (metis append_Cons)
    with ok show ?thesis by blast
  next
    assume "piece # piece_queue q' = piece_queue q @ shuffled"
    then have "piece_queue q @ concat (shuffled # bs') = ds @ rest"
      using eq ds by (metis append_Cons append_assoc concat.simps(2))
    moreover have "list_all bag (shuffled # bs')" using ok b by simp
    ultimately show ?thesis by blast
  qed
qed

lemma concat_block:
  "list_all (\<lambda>b. length b = n) bags \<Longrightarrow> k < length bags \<Longrightarrow>
     take n (drop (n * k) (concat bags)) = bags ! k"
proof (induction bags arbitrary: k)
  case Nil
  then show ?case by simp
next
  case (Cons b bags)
  show ?case
  proof (cases k)
    case 0
    then show ?thesis using Cons.prems by simp
  next
    case (Suc j)
    then show ?thesis using Cons.prems Cons.IH [of j] by simp
  qed
qed

lemma concat_length: "list_all (\<lambda>b. length b = n) bags \<Longrightarrow> length (concat bags) = n * length bags"
  by (induction bags) auto

lemma next_total:
  assumes "bag shuffled" and "displayed_piece_count q < length (piece_queue q)"
  shows "\<exists>piece q'. next shuffled q = Some (piece, q')
           \<and> displayed_piece_count q' = displayed_piece_count q
           \<and> displayed_piece_count q' < length (piece_queue q')"
proof (cases "piece_queue q")
  case Nil
  then show ?thesis using assms(2) by simp
next
  case (Cons piece rest)
  then show ?thesis
    using assms(2) bag_length [OF assms(1)]
    by (simp add: next_def generate_pieces_def Let_def)
qed

lemma draws_total:
  "list_all bag outcomes \<Longrightarrow> displayed_piece_count q < length (piece_queue q) \<Longrightarrow>
     \<exists>ds. draws q outcomes = Some ds"
proof (induction outcomes arbitrary: q)
  case Nil
  then show ?case by simp
next
  case (Cons shuffled outcomes)
  then have b: "bag shuffled" and bs: "list_all bag outcomes" by simp_all
  from next_total [OF b Cons.prems(2)] obtain piece q' where
    nx: "next shuffled q = Some (piece, q')"
    and ok: "displayed_piece_count q' < length (piece_queue q')" by blast
  from Cons.IH [OF bs ok] obtain ds where "draws q' outcomes = Some ds" by blast
  with nx show ?case by simp
qed

lemma draws_block:
  assumes "bag s0" and "list_all bag outcomes"
    and "draws (PieceQueue allTypes n s0) outcomes = Some ds"
    and "7 * (k + 1) \<le> length ds"
  shows "mset (take 7 (drop (7 * k) ds)) = mset allTypes"
proof -
  have q0: "piece_queue (PieceQueue allTypes n s0) = s0"
    by (simp add: PieceQueue_def generate_pieces_def)
  from draws_prefix [OF assms(3,2)] obtain bs' rest where
    ok: "list_all bag bs'" and eq: "s0 @ concat bs' = ds @ rest" unfolding q0 by blast
  define bags where "bags = s0 # bs'"
  have all: "list_all bag bags" using ok assms(1) by (simp add: bags_def)
  then have len: "list_all (\<lambda>b. length b = 7) bags"
    by (simp add: list_all_iff bag_length)
  have cat: "concat bags = ds @ rest" using eq by (simp add: bags_def)
  have "7 * (k + 1) \<le> length (concat bags)" using assms(4) cat by simp
  then have k: "k < length bags" using concat_length [OF len] by simp
  have "take 7 (drop (7 * k) ds) = take 7 (drop (7 * k) (concat bags))"
    using assms(4) cat by simp
  also have "\<dots> = bags ! k" by (rule concat_block [OF len k])
  finally show ?thesis using all k by (simp add: list_all_length bag_def)
qed

text \<open>Claim C7, as the code has it. In a run of the supply whose shuffles return
  arrangements of the seven types, the draws number \<open>7 k + 1\<close> to \<open>7 k + 7\<close> hold every
  type exactly once, for every \<open>k\<close>; and with a preview of fewer than 7 pieces every call
  of \<^verbatim>\<open>next\<close> returns.\<close>

theorem draws_blocks:
  assumes "list_all (\<lambda>s. mset s = mset allTypes) (s0 # outcomes)"
  shows "(n < 7 \<longrightarrow> (\<exists>ds. draws (PieceQueue allTypes n s0) outcomes = Some ds))
       \<and> (\<forall>ds k. draws (PieceQueue allTypes n s0) outcomes = Some ds \<and> 7 * (k + 1) \<le> length ds
            \<longrightarrow> mset (take 7 (drop (7 * k) ds)) = mset allTypes)"
proof -
  have b0: "bag s0" and bs: "list_all bag outcomes"
    using assms by (simp_all add: bag_def list_all_iff)
  have "n < 7 \<Longrightarrow> \<exists>ds. draws (PieceQueue allTypes n s0) outcomes = Some ds"
    using bag_length [OF b0]
    by (intro draws_total [OF bs]) (simp add: PieceQueue_def generate_pieces_def)
  moreover have "\<And>ds k. draws (PieceQueue allTypes n s0) outcomes = Some ds
      \<Longrightarrow> 7 * (k + 1) \<le> length ds \<Longrightarrow> mset (take 7 (drop (7 * k) ds)) = mset allTypes"
    by (rule draws_block [OF b0 bs])
  ultimately show ?thesis by blast
qed

theorem draws_blocks_witness:
  "list_all (\<lambda>s. mset s = mset allTypes) (allTypes # replicate 8 bag_Z_first)
   \<and> (3::nat) < 7
   \<and> draws (PieceQueue allTypes 3 allTypes) (replicate 8 bag_Z_first)
       = Some [Type_I, Type_J, Type_L, Type_O, Type_S, Type_T, Type_Z, Type_Z]
   \<and> 7 * (0 + 1) \<le> length [Type_I, Type_J, Type_L, Type_O, Type_S, Type_T, Type_Z, Type_Z]
   \<and> mset (take 7 (drop (7 * 0) [Type_I, Type_J, Type_L, Type_O, Type_S, Type_T, Type_Z, Type_Z]))
       = mset allTypes"
proof -
  have "mset bag_Z_first = mset allTypes"
    by (simp add: bag_Z_first_def allTypes_def)
  then have h: "list_all (\<lambda>s. mset s = mset allTypes) (allTypes # replicate 8 bag_Z_first)"
    by (simp add: list_all_iff)
  have run: "draws (PieceQueue allTypes 3 allTypes) (replicate 8 bag_Z_first)
       = Some [Type_I, Type_J, Type_L, Type_O, Type_S, Type_T, Type_Z, Type_Z]"
    by code_simp
  from draws_blocks [OF h, of 3] run show ?thesis
    using h by (simp add: allTypes_def)
qed

text \<open>Claim C7 as stated fails: in that run the draws 2 to 8 are seven consecutive
  draws without the I piece.\<close>

theorem draws_window_counterexample:
  "mset bag_Z_first = mset allTypes
   \<and> draws (PieceQueue allTypes 3 allTypes) (replicate 8 bag_Z_first)
       = Some [Type_I, Type_J, Type_L, Type_O, Type_S, Type_T, Type_Z, Type_Z]
   \<and> Type_I \<notin> set (take 7 (drop 1 [Type_I, Type_J, Type_L, Type_O, Type_S, Type_T, Type_Z, Type_Z]))"
proof -
  have "draws (PieceQueue allTypes 3 allTypes) (replicate 8 bag_Z_first)
       = Some [Type_I, Type_J, Type_L, Type_O, Type_S, Type_T, Type_Z, Type_Z]"
    by code_simp
  then show ?thesis by (simp add: bag_Z_first_def allTypes_def)
qed

text \<open>Claim C8. Once the queue is longer than the preview, \<^verbatim>\<open>next\<close> returns and keeps
  it so (\<open>next_total\<close>). The constructor, however, fills in one bag whatever the preview
  size: with a preview of 7 the queue is not longer than the preview after construction,
  and with a preview of 13 the one bag that \<^verbatim>\<open>next\<close> adds leaves 13 pieces and the
  assertion of \<^verbatim>\<open>next\<close> fails.\<close>

theorem PieceQueue_large_preview:
  "length (piece_queue (PieceQueue allTypes 7 allTypes))
     \<le> displayed_piece_count (PieceQueue allTypes 7 allTypes)
   \<and> next allTypes (PieceQueue allTypes 13 allTypes) = None"
  by (simp add: PieceQueue_def generate_pieces_def next_def allTypes_def)

section \<open>Locking: the writes of \<^verbatim>\<open>lockAndReleasePiece\<close>\<close>

lemma matrix_ok_cols: "matrix_ok m \<Longrightarrow> i < length m \<Longrightarrow> length (m ! i) = matrix_cols m"
  by (simp add: matrix_ok_def list_all_length)

lemma grid_ok_set:
  "grid_ok g \<Longrightarrow> grid_ok (g[row := (g ! row)[cell := v]])"
  by (cases "row < length g") (auto simp: grid_ok_def list_all_length nth_list_update)

lemma currentGrid_set_cell:
  "currentGrid (set_cell p row cell v) =
     (if rotation p < length (frames p) then (currentGrid p)[row := (currentGrid p ! row)[cell := v]]
      else currentGrid p)"
  by (simp add: set_cell_def currentGrid_def list_update_beyond)

lemma grid_ok_set_cell: "grid_ok (currentGrid p) \<Longrightarrow> grid_ok (currentGrid (set_cell p row cell v))"
  by (simp add: currentGrid_set_cell grid_ok_set)

lemma nth2_update:
  "g[row := (g ! row)[cell := v]] ! r ! c =
     (if r = row \<and> c = cell \<and> row < length g \<and> cell < length (g ! row) then v
      else g ! r ! c)"
  by (cases "row < length g"; cases "r = row"; cases "c = cell";
      cases "cell < length (g ! row)"; simp add: list_update_beyond not_less)

lemma set_cell_other:
  "r \<noteq> row \<or> c \<noteq> cell \<Longrightarrow>
     currentGrid (set_cell p row cell v) ! r ! c = currentGrid p ! r ! c"
  by (auto simp: currentGrid_set_cell nth2_update)

lemma u32_nat: "0 \<le> i \<Longrightarrow> i < 2 ^ 32 \<Longrightarrow> u32 i = nat i"
  by (simp add: u32_def)

lemma cell_index_unique:
  "c < 4 \<Longrightarrow> cell < 4 \<Longrightarrow> 4 * r + c = 4 * row + cell \<Longrightarrow> r = row \<and> c = (cell::nat)"
  by presburger

lemma lock_inv_step_ex:
  assumes "row < 4" and "cell < 4"
  shows "(\<exists>r<4. \<exists>c<4. 4 * r + c < 4 * row + cell + 1 \<and> i = (y::nat) + r
            \<and> int j = (x::int) + int c \<and> G r c)
     \<longleftrightarrow> (\<exists>r<4. \<exists>c<4. 4 * r + c < 4 * row + cell \<and> i = y + r \<and> int j = x + int c \<and> G r c)
         \<or> (i = y + row \<and> int j = x + int cell \<and> G row cell)"
  (is "?L \<longleftrightarrow> ?A \<or> ?B")
proof
  assume ?L
  then obtain r c where rc: "r < 4" "c < 4" "4 * r + c < 4 * row + cell + 1"
    "i = y + r" "int j = x + int c" "G r c" by blast
  show "?A \<or> ?B"
  proof (cases "4 * r + c < 4 * row + cell")
    case True
    with rc show ?thesis by blast
  next
    case False
    with rc(3) have "4 * r + c = 4 * row + cell" by simp
    from cell_index_unique [OF rc(2) assms(2) this] rc show ?thesis by simp
  qed
next
  assume "?A \<or> ?B"
  then show ?L
  proof
    assume ?A
    then obtain r c where "r < 4" "c < 4" "4 * r + c < 4 * row + cell"
      "i = y + r" "int j = x + int c" "G r c" by blast
    then have "r < 4 \<and> c < 4 \<and> 4 * r + c < 4 * row + cell + 1 \<and> i = y + r
      \<and> int j = x + int c \<and> G r c" by simp
    then show ?L by blast
  next
    assume ?B
    with assms have "row < 4 \<and> cell < 4 \<and> 4 * row + cell < 4 * row + cell + 1 \<and> i = y + row
      \<and> int j = x + int cell \<and> G row cell" by simp
    then show ?L by blast
  qed
qed

lemma lock_inv_skip:
  assumes inv: "lock_inv w p (4 * row + cell) w1" and "row < 4" and "cell < 4"
    and skip: "\<not> (active_piece_y w + row < length (matrix w) \<and> 0 \<le> active_piece_x w + int cell
        \<and> active_piece_x w + int cell < int (matrix_cols (matrix w))
        \<and> currentGrid p ! row ! cell \<noteq> None)"
  shows "lock_inv w p (4 * row + cell + 1) w1"
proof -
  have ex: "\<And>i j. i < length (matrix w) \<Longrightarrow> j < matrix_cols (matrix w) \<Longrightarrow>
      (\<exists>r<4. \<exists>c<4. 4 * r + c < 4 * row + cell + 1 \<and> i = active_piece_y w + r
          \<and> int j = active_piece_x w + int c \<and> currentGrid p ! r ! c \<noteq> None)
      \<longleftrightarrow> (\<exists>r<4. \<exists>c<4. 4 * r + c < 4 * row + cell \<and> i = active_piece_y w + r
          \<and> int j = active_piece_x w + int c \<and> currentGrid p ! r ! c \<noteq> None)"
    using skip
    by (subst lock_inv_step_ex [OF assms(2,3), where G = "\<lambda>r c. currentGrid p ! r ! c \<noteq> None"])
       auto
  show ?thesis
    using inv unfolding lock_inv_def
    apply (intro conjI)
         apply simp
        apply simp
       apply simp
      apply simp
     apply (elim conjE exE)
     subgoal for p' by (rule exI [of _ p']) simp
    apply (elim conjE)
    apply (intro allI impI)
    apply (subst ex)
      apply simp_all
    done
qed

lemma lock_inv_write:
  assumes mk: "matrix_ok (matrix w)"
    and inv: "lock_inv w p (4 * row + cell) w1" and row: "row < 4" and cell: "cell < 4"
    and ap: "active_piece w1 = Some p'"
    and inb: "active_piece_y w + row < length (matrix w)" "0 \<le> active_piece_x w + int cell"
      "active_piece_x w + int cell < int (matrix_cols (matrix w))"
    and occ: "currentGrid p ! row ! cell = Some mn"
    and w2: "matrix w2 = (matrix w1)[active_piece_y w + row :=
                (matrix w1 ! (active_piece_y w + row))[nat (active_piece_x w + int cell) := Some mn]]"
      "active_piece w2 = Some (set_cell p' row cell v)"
      "active_piece_x w2 = active_piece_x w1" "active_piece_y w2 = active_piece_y w1"
  shows "lock_inv w p (4 * row + cell + 1) w2"
proof -
  let ?y = "active_piece_y w" and ?x = "active_piece_x w"
  let ?H = "length (matrix w)" and ?W = "matrix_cols (matrix w)"
  from inv ap have p': "grid_ok (currentGrid p')"
    "\<And>r c. r < 4 \<Longrightarrow> c < 4 \<Longrightarrow> 4 * row + cell \<le> 4 * r + c
        \<Longrightarrow> currentGrid p' ! r ! c = currentGrid p ! r ! c"
    by (auto simp: lock_inv_def)
  from inv have len: "length (matrix w1) = ?H"
    and lens: "\<And>i. i < ?H \<Longrightarrow> length (matrix w1 ! i) = length (matrix w ! i)"
    and pos: "active_piece_x w1 = ?x" "active_piece_y w1 = ?y"
    and old: "\<And>i j. i < ?H \<Longrightarrow> j < ?W \<Longrightarrow> matrix w1 ! i ! j =
        (if \<exists>r<4. \<exists>c<4. 4 * r + c < 4 * row + cell \<and> i = ?y + r
               \<and> int j = ?x + int c \<and> currentGrid p ! r ! c \<noteq> None
         then currentGrid p ! (i - ?y) ! nat (int j - ?x) else matrix w ! i ! j)"
    by (simp_all add: lock_inv_def)
  have wid: "\<And>i. i < ?H \<Longrightarrow> length (matrix w1 ! i) = ?W"
    using lens matrix_ok_cols [OF mk] by simp
  have c1: "active_piece_x w2 = ?x \<and> active_piece_y w2 = ?y" using w2 pos by simp
  have c2: "length (matrix w2) = ?H" using w2(1) len by simp
  have c3: "\<forall>i<?H. length (matrix w2 ! i) = length (matrix w ! i)"
  proof (intro allI impI)
    fix i assume "i < ?H"
    then show "length (matrix w2 ! i) = length (matrix w ! i)"
      using len lens [of i] inb(1) unfolding w2(1)
      by (cases "i = ?y + row") simp_all
  qed
  have c4: "\<exists>q. active_piece w2 = Some q \<and> grid_ok (currentGrid q)
      \<and> (\<forall>r<4. \<forall>c<4. 4 * row + cell + 1 \<le> 4 * r + c
            \<longrightarrow> currentGrid q ! r ! c = currentGrid p ! r ! c)"
  proof (intro exI conjI allI impI)
    show "active_piece w2 = Some (set_cell p' row cell v)" by (rule w2(2))
    show "grid_ok (currentGrid (set_cell p' row cell v))" by (rule grid_ok_set_cell [OF p'(1)])
    fix r c :: nat
    assume rc: "r < 4" "c < 4" "4 * row + cell + 1 \<le> 4 * r + c"
    then have "r \<noteq> row \<or> c \<noteq> cell" by auto
    then show "currentGrid (set_cell p' row cell v) ! r ! c = currentGrid p ! r ! c"
      using set_cell_other [of r row c cell p' v] p'(2) [of r c] rc by simp
  qed
  have c5: "\<forall>i<?H. \<forall>j<?W. matrix w2 ! i ! j =
        (if \<exists>r<4. \<exists>c<4. 4 * r + c < 4 * row + cell + 1 \<and> i = ?y + r
               \<and> int j = ?x + int c \<and> currentGrid p ! r ! c \<noteq> None
         then currentGrid p ! (i - ?y) ! nat (int j - ?x) else matrix w ! i ! j)"
  proof (intro allI impI)
    fix i j assume ij: "i < ?H" "j < ?W"
    have new: "matrix w2 ! i ! j =
        (if i = ?y + row \<and> j = nat (?x + int cell) then Some mn else matrix w1 ! i ! j)"
    proof -
      have "nat (?x + int cell) < ?W" using inb(2,3) by simp
      then show ?thesis
        using inb(1) wid [of "?y + row"] len by (simp add: w2(1) nth2_update)
    qed
    have tgt: "(i = ?y + row \<and> int j = ?x + int cell) \<longleftrightarrow> (i = ?y + row \<and> j = nat (?x + int cell))"
      using inb(2) by auto
    show "matrix w2 ! i ! j =
        (if \<exists>r<4. \<exists>c<4. 4 * r + c < 4 * row + cell + 1 \<and> i = ?y + r
               \<and> int j = ?x + int c \<and> currentGrid p ! r ! c \<noteq> None
         then currentGrid p ! (i - ?y) ! nat (int j - ?x) else matrix w ! i ! j)"
      unfolding lock_inv_step_ex [OF row cell, where G = "\<lambda>r c. currentGrid p ! r ! c \<noteq> None"]
      using occ old [OF ij] new tgt by auto
  qed
  show ?thesis
    unfolding lock_inv_def using c1 c2 c3 c4 c5 by blast
qed

lemma lock_cell_inv:
  assumes mk: "matrix_ok (matrix w)"
    and y: "active_piece_y w < length (matrix w)"
    and x: "active_piece_x w < int (matrix_cols (matrix w))"
    and inv: "lock_inv w p (4 * row + cell) w1" and row: "row < 4" and cell: "cell < 4"
  shows "\<exists>w2. lock_cell env w1 row cell = Some w2 \<and> lock_inv w p (4 * row + cell + 1) w2"
proof -
  let ?y = "active_piece_y w" and ?x = "active_piece_x w"
  let ?H = "length (matrix w)" and ?W = "matrix_cols (matrix w)"
  from inv obtain p' where ap: "active_piece w1 = Some p'" and gp: "grid_ok (currentGrid p')"
    and same: "currentGrid p' ! row ! cell = currentGrid p ! row ! cell"
    using row cell by (auto simp: lock_inv_def)
  from inv have len: "length (matrix w1) = ?H"
    and lens: "\<And>i. i < ?H \<Longrightarrow> length (matrix w1 ! i) = length (matrix w ! i)"
    and pos: "active_piece_x w1 = ?x" "active_piece_y w1 = ?y"
    by (simp_all add: lock_inv_def)
  have cols1: "matrix_cols (matrix w1) = ?W"
  proof -
    have "0 < ?H" using mk by (simp add: matrix_ok_def)
    then have "matrix w1 \<noteq> []" "matrix w \<noteq> []" using len by auto
    then have "hd (matrix w1) = matrix w1 ! 0" "hd (matrix w) = matrix w ! 0"
      by (simp_all add: hd_conv_nth)
    then show ?thesis using lens [OF \<open>0 < ?H\<close>] by (simp add: matrix_cols_def)
  qed
  have ry: "u32 (int ?y + int row) = ?y + row"
  proof -
    have "?y + row < 2 ^ 32" using mk y row by (simp add: matrix_ok_def)
    from u32_plus [OF this] show ?thesis .
  qed
  have ga: "grid_at (currentGrid p') row cell = Some (currentGrid p ! row ! cell)"
    using gp row cell same by (simp add: grid_at_def grid_ok_def list_all_length)
  show ?thesis
  proof (cases "?y + row < ?H \<and> 0 \<le> ?x + int cell \<and> ?x + int cell < int ?W
      \<and> currentGrid p ! row ! cell \<noteq> None")
    case False
    have cx: "0 \<le> ?x + int cell \<Longrightarrow> u32 (?x + int cell) = nat (?x + int cell)"
    proof -
      assume nn: "0 \<le> ?x + int cell"
      have "?x + int cell < 2 ^ 32" using mk x cell by (simp add: matrix_ok_def)
      with nn show ?thesis by (rule u32_nat)
    qed
    have "lock_cell env w1 row cell = Some w1"
      using False cx ga
      by (cases "0 \<le> ?x + int cell")
         (auto simp: lock_cell_def Let_def pos ry len cols1 ap)
    with lock_inv_skip [OF inv row cell False] show ?thesis by simp
  next
    case True
    then obtain mn where occ: "currentGrid p ! row ! cell = Some mn" by auto
    have cx: "u32 (?x + int cell) = nat (?x + int cell)"
    proof -
      have "?x + int cell < 2 ^ 32" using mk x cell by (simp add: matrix_ok_def)
      with True show ?thesis by (simp add: u32_nat)
    qed
    from True have inb: "?y + row < ?H" "0 \<le> ?x + int cell" "?x + int cell < int ?W"
      by simp_all
    have cw: "nat (?x + int cell) < ?W" using inb(2,3) by linarith
    have wid: "length (matrix w1 ! (?y + row)) = ?W"
      using lens [of "?y + row"] True matrix_ok_cols [OF mk] by simp
    obtain w2 where lc: "lock_cell env w1 row cell = Some w2"
      and w2: "matrix w2 = (matrix w1)[?y + row :=
                (matrix w1 ! (?y + row))[nat (?x + int cell) := Some mn]]"
      "active_piece w2 = Some (set_cell p' row cell (matrix w1 ! (?y + row) ! nat (?x + int cell)))"
      "active_piece_x w2 = active_piece_x w1" "active_piece_y w2 = active_piece_y w1"
      using True cw wid
      by (auto simp: lock_cell_def Let_def pos ry cx len cols1 ap ga occ)
    from lock_inv_write [OF mk inv row cell ap inb occ w2] lc show ?thesis by blast
  qed
qed

lemma lock_cells_inv:
  assumes mk: "matrix_ok (matrix w)"
    and y: "active_piece_y w < length (matrix w)"
    and x: "active_piece_x w < int (matrix_cols (matrix w))"
    and row: "row < 4"
  shows "cell \<le> 4 \<Longrightarrow> lock_inv w p (4 * row + cell) w1 \<Longrightarrow>
     \<exists>w2. lock_cells env w1 row cell = Some w2 \<and> lock_inv w p (4 * row + 4) w2"
proof (induction "4 - cell" arbitrary: cell w1)
  case 0
  then have "cell = 4" by simp
  with "0.prems"(2) show ?case by (subst lock_cells.simps) simp
next
  case (Suc k)
  then have lt: "cell < 4" and k: "k = 4 - Suc cell" by simp_all
  from lock_cell_inv [OF mk y x Suc.prems(2) row lt, of env] obtain w2 where
    lc: "lock_cell env w1 row cell = Some w2"
    and inv2: "lock_inv w p (4 * row + Suc cell) w2" by auto
  from Suc.hyps(1) [OF k _ inv2] lt obtain w3 where
    "lock_cells env w2 row (Suc cell) = Some w3" "lock_inv w p (4 * row + 4) w3" by auto
  with lc lt show ?case by (subst lock_cells.simps) simp
qed

lemma lock_rows_inv:
  assumes mk: "matrix_ok (matrix w)"
    and y: "active_piece_y w < length (matrix w)"
    and x: "active_piece_x w < int (matrix_cols (matrix w))"
  shows "row \<le> 4 \<Longrightarrow> lock_inv w p (4 * row) w1 \<Longrightarrow>
     \<exists>w2. lock_rows env w1 row = Some w2 \<and> lock_inv w p 16 w2"
proof (induction "4 - row" arbitrary: row w1)
  case 0
  then have "row = 4" by simp
  with "0.prems"(2) show ?case by (subst lock_rows.simps) simp
next
  case (Suc k)
  then have lt: "row < 4" and k: "k = 4 - Suc row" by simp_all
  from Suc.prems(2) have inv0: "lock_inv w p (4 * row + 0) w1" by simp
  from lock_cells_inv [OF mk y x lt _ inv0, of env] obtain w2 where
    lc: "lock_cells env w1 row 0 = Some w2"
    and inv2': "lock_inv w p (4 * row + 4) w2" by auto
  have "4 * row + 4 = 4 * Suc row" by simp
  with inv2' have inv2: "lock_inv w p (4 * Suc row) w2" by metis
  from Suc.hyps(1) [OF k _ inv2] lt obtain w3 where
    "lock_rows env w2 (Suc row) = Some w3" "lock_inv w p 16 w3" by auto
  with lc lt show ?case by (subst lock_rows.simps) simp
qed

lemma lock_inv_start:
  "active_piece w = Some p \<Longrightarrow> grid_ok (currentGrid p) \<Longrightarrow> lock_inv w p 0 w"
  by (simp add: lock_inv_def)

lemma lock_rows_effect:
  assumes "matrix_ok (matrix w)" and "active_piece w = Some p" and "grid_ok (currentGrid p)"
    and "active_piece_y w < length (matrix w)"
    and "active_piece_x w < int (matrix_cols (matrix w))"
  shows "\<exists>w'. lock_rows env w 0 = Some w'
     \<and> length (matrix w') = length (matrix w)
     \<and> (\<forall>i<length (matrix w). length (matrix w' ! i) = length (matrix w ! i))
     \<and> (\<forall>r<4. \<forall>c<4. currentGrid p ! r ! c \<noteq> None
            \<and> active_piece_y w + r < length (matrix w)
            \<and> 0 \<le> active_piece_x w + int c
            \<and> active_piece_x w + int c < int (matrix_cols (matrix w))
          \<longrightarrow> matrix w' ! (active_piece_y w + r) ! nat (active_piece_x w + int c)
                = currentGrid p ! r ! c)
     \<and> (\<forall>i<length (matrix w). \<forall>j<matrix_cols (matrix w).
            \<not> (\<exists>r<4. \<exists>c<4. i = active_piece_y w + r \<and> int j = active_piece_x w + int c
                  \<and> currentGrid p ! r ! c \<noteq> None)
          \<longrightarrow> matrix w' ! i ! j = matrix w ! i ! j)
     \<and> lockAndReleasePiece env w =
          checkLineclear env (notify PIECE_LOCKED
            (w'\<lparr>active_piece := None, lock_countdown := cd_stop (lock_countdown w')\<rparr>))"
proof -
  let ?y = "active_piece_y w" and ?x = "active_piece_x w"
  from lock_inv_start [OF assms(2,3)] have "lock_inv w p (4 * 0) w" by simp
  from lock_rows_inv [OF assms(1,4,5) _ this, of env]
  obtain w' where lr: "lock_rows env w 0 = Some w'" and inv: "lock_inv w p 16 w'" by auto
  have all16: "\<And>r c. r < 4 \<Longrightarrow> c < 4 \<Longrightarrow> 4 * r + c < (16::nat)" by simp
  from inv have len: "length (matrix w') = length (matrix w)"
    and lens: "\<forall>i<length (matrix w). length (matrix w' ! i) = length (matrix w ! i)"
    and cells: "\<And>i j. i < length (matrix w) \<Longrightarrow> j < matrix_cols (matrix w) \<Longrightarrow>
        matrix w' ! i ! j =
          (if \<exists>r<4. \<exists>c<4. 4 * r + c < 16 \<and> i = ?y + r \<and> int j = ?x + int c
                 \<and> currentGrid p ! r ! c \<noteq> None
           then currentGrid p ! (i - ?y) ! nat (int j - ?x) else matrix w ! i ! j)"
    by (simp_all add: lock_inv_def)
  have written: "\<forall>r<4. \<forall>c<4. currentGrid p ! r ! c \<noteq> None
            \<and> ?y + r < length (matrix w) \<and> 0 \<le> ?x + int c
            \<and> ?x + int c < int (matrix_cols (matrix w))
          \<longrightarrow> matrix w' ! (?y + r) ! nat (?x + int c) = currentGrid p ! r ! c"
  proof (intro allI impI)
    fix r c :: nat
    assume r: "r < 4" and c: "c < 4"
      and h: "currentGrid p ! r ! c \<noteq> None \<and> ?y + r < length (matrix w) \<and> 0 \<le> ?x + int c
            \<and> ?x + int c < int (matrix_cols (matrix w))"
    then have j: "nat (?x + int c) < matrix_cols (matrix w)" by linarith
    have "\<exists>r'<4. \<exists>c'<4. 4 * r' + c' < 16 \<and> ?y + r = ?y + r'
        \<and> int (nat (?x + int c)) = ?x + int c' \<and> currentGrid p ! r' ! c' \<noteq> None"
      using r c h all16 [OF r c] by (intro exI [of _ r] conjI exI [of _ c]) simp_all
    from cells [of "?y + r" "nat (?x + int c)", unfolded if_P [OF this]] h j
    show "matrix w' ! (?y + r) ! nat (?x + int c) = currentGrid p ! r ! c" by simp
  qed
  have kept: "\<forall>i<length (matrix w). \<forall>j<matrix_cols (matrix w).
            \<not> (\<exists>r<4. \<exists>c<4. i = ?y + r \<and> int j = ?x + int c \<and> currentGrid p ! r ! c \<noteq> None)
          \<longrightarrow> matrix w' ! i ! j = matrix w ! i ! j"
  proof (intro allI impI)
    fix i j
    assume ij: "i < length (matrix w)" "j < matrix_cols (matrix w)"
      and no: "\<not> (\<exists>r<4. \<exists>c<4. i = ?y + r \<and> int j = ?x + int c \<and> currentGrid p ! r ! c \<noteq> None)"
    then have "\<not> (\<exists>r<4. \<exists>c<4. 4 * r + c < 16 \<and> i = ?y + r \<and> int j = ?x + int c
                 \<and> currentGrid p ! r ! c \<noteq> None)" by blast
    from cells [OF ij, unfolded if_not_P [OF this]]
    show "matrix w' ! i ! j = matrix w ! i ! j" .
  qed
  have "lockAndReleasePiece env w =
          checkLineclear env (notify PIECE_LOCKED
            (w'\<lparr>active_piece := None, lock_countdown := cd_stop (lock_countdown w')\<rparr>))"
    by (simp add: lockAndReleasePiece_def lr)
  with lr len lens written kept show ?thesis by blast
qed

text \<open>Claim C10. With a piece on the field at a position on the board, the two loops of
  \<^verbatim>\<open>lockAndReleasePiece\<close> return without an access outside the board (which the model
  would report as \<open>None\<close>); the extents of the board are unchanged; every occupied cell
  of the grid whose target row and column are on the board is in the board at that
  target afterwards; every other cell of the board is as before, so an occupied cell of
  the grid with a target off the board is written nowhere. The function then releases
  the piece and goes on to the line clear check.\<close>

theorem lock_rows_in_bounds:
  assumes "matrix_ok (matrix w)" and "active_piece w = Some p" and "grid_ok (currentGrid p)"
    and "active_piece_y w < length (matrix w)"
    and "active_piece_x w < int (matrix_cols (matrix w))"
  shows "\<exists>w'. lock_rows env w 0 = Some w'
     \<and> length (matrix w') = length (matrix w)
     \<and> (\<forall>i<length (matrix w). length (matrix w' ! i) = length (matrix w ! i))
     \<and> (\<forall>r<4. \<forall>c<4. currentGrid p ! r ! c \<noteq> None
            \<and> active_piece_y w + r < length (matrix w)
            \<and> 0 \<le> active_piece_x w + int c
            \<and> active_piece_x w + int c < int (matrix_cols (matrix w))
          \<longrightarrow> matrix w' ! (active_piece_y w + r) ! nat (active_piece_x w + int c)
                = currentGrid p ! r ! c)
     \<and> (\<forall>i<length (matrix w). \<forall>j<matrix_cols (matrix w).
            \<not> (\<exists>r<4. \<exists>c<4. i = active_piece_y w + r \<and> int j = active_piece_x w + int c
                  \<and> currentGrid p ! r ! c \<noteq> None)
          \<longrightarrow> matrix w' ! i ! j = matrix w ! i ! j)
     \<and> lockAndReleasePiece env w =
          checkLineclear env (notify PIECE_LOCKED
            (w'\<lparr>active_piece := None, lock_countdown := cd_stop (lock_countdown w')\<rparr>))"
  using assms by (rule lock_rows_effect)

theorem lock_rows_in_bounds_witness:
  "matrix_ok (matrix grounded_T) \<and> active_piece grounded_T = Some (example_piece Type_T)
   \<and> grid_ok (currentGrid (example_piece Type_T))
   \<and> active_piece_y grounded_T < length (matrix grounded_T)
   \<and> active_piece_x grounded_T < int (matrix_cols (matrix grounded_T))
   \<and> (\<exists>w'. lock_rows example_env grounded_T 0 = Some w'
         \<and> length (matrix w') = 22
         \<and> matrix w' ! 21 ! 0 = Some (Mino Type_T)
         \<and> matrix w' ! 21 ! 5 = None)"
proof -
  have m: "matrix grounded_T = replicate 22 (replicate 10 None)"
    by (simp add: grounded_T_def empty_well_def Well_def)
  have h1: "matrix_ok (matrix grounded_T)"
    unfolding m by (simp add: matrix_ok_def matrix_cols_def list_all_iff)
  have h2: "active_piece grounded_T = Some (example_piece Type_T)"
    by (simp add: grounded_T_def)
  have h3: "grid_ok (currentGrid (example_piece Type_T))" by code_simp
  have xy: "active_piece_y grounded_T = 20" "active_piece_x grounded_T = - 1"
    by (simp_all add: grounded_T_def)
  have cols: "matrix_cols (matrix grounded_T) = 10"
    unfolding m by (simp add: matrix_cols_def)
  have rows: "length (matrix grounded_T) = 22"
    unfolding m by simp
  have h4: "active_piece_y grounded_T < length (matrix grounded_T)"
    unfolding rows xy by simp
  have h5: "active_piece_x grounded_T < int (matrix_cols (matrix grounded_T))"
    unfolding cols xy by simp
  have g11: "currentGrid (example_piece Type_T) ! 1 ! 1 = Some (Mino Type_T)" by code_simp
  from lock_rows_in_bounds [OF h1 h2 h3 h4 h5, of example_env] obtain w' where
    lr: "lock_rows example_env grounded_T 0 = Some w'"
    and len: "length (matrix w') = length (matrix grounded_T)"
    and written: "\<forall>r<4. \<forall>c<4. currentGrid (example_piece Type_T) ! r ! c \<noteq> None
            \<and> active_piece_y grounded_T + r < length (matrix grounded_T)
            \<and> 0 \<le> active_piece_x grounded_T + int c
            \<and> active_piece_x grounded_T + int c < int (matrix_cols (matrix grounded_T))
          \<longrightarrow> matrix w' ! (active_piece_y grounded_T + r) ! nat (active_piece_x grounded_T + int c)
                = currentGrid (example_piece Type_T) ! r ! c"
    and kept: "\<forall>i<length (matrix grounded_T). \<forall>j<matrix_cols (matrix grounded_T).
            \<not> (\<exists>r<4. \<exists>c<4. i = active_piece_y grounded_T + r
                  \<and> int j = active_piece_x grounded_T + int c
                  \<and> currentGrid (example_piece Type_T) ! r ! c \<noteq> None)
          \<longrightarrow> matrix w' ! i ! j = matrix grounded_T ! i ! j"
    by blast
  have a: "matrix w' ! 21 ! 0 = Some (Mino Type_T)"
    using written [rule_format, of 1 1] g11 by (simp add: xy cols rows)
  have "\<not> (\<exists>r<4. \<exists>c<4. (21::nat) = active_piece_y grounded_T + r
                  \<and> int 5 = active_piece_x grounded_T + int c
                  \<and> currentGrid (example_piece Type_T) ! r ! c \<noteq> None)"
    unfolding xy by auto
  moreover have "21 < length (matrix grounded_T)" "5 < matrix_cols (matrix grounded_T)"
    by (simp_all add: rows cols)
  ultimately have "matrix w' ! 21 ! 5 = matrix grounded_T ! 21 ! 5"
    using kept by blast
  then have b: "matrix w' ! 21 ! 5 = None" by (simp add: m)
  from lr len a b h1 h2 h3 h4 h5 show ?thesis by (simp add: rows)
qed

section \<open>Wall kicks and failed rotations\<close>

lemma first_free_append:
  "first_free w (cs @ ds) =
     (case first_free w cs of None \<Rightarrow> None | Some None \<Rightarrow> first_free w ds
      | Some (Some c) \<Rightarrow> Some (Some c))"
proof (induction cs)
  case Nil
  show ?case by simp
next
  case (Cons c cs)
  obtain dx floor where c: "c = (dx, floor)" by (cases c)
  show ?case
  proof (cases "hasCollisionAt w (active_piece_x w + dx)
      (u32 (int (active_piece_y w) - int floor))")
    case None
    then show ?thesis by (simp add: c)
  next
    case (Some collides)
    then show ?thesis using Cons.IH by (cases collides) (simp_all add: c)
  qed
qed

lemma kick_floor_first_free:
  "kick_floor w p floor =
     map_option (map_option (\<lambda>(dx, fl). kick_to w dx fl))
       (first_free w (floor_candidates w (ptype p) floor))"
  by (auto simp: kick_floor_def floor_candidates_def Let_def
           split: option.splits Option.bind_splits)

lemma wallkick_floors_suffix:
  fixes w p
  defines "n \<equiv> (if ptype p = Type_I then 3 else 2 :: nat)"
  shows "floor \<le> n \<Longrightarrow> wallkick_floors w p floor =
     map_option (accept_kick w)
       (first_free w (concat (map (floor_candidates w (ptype p)) [floor ..< n])))"
proof (induction "n - floor" arbitrary: floor)
  case 0
  then have "floor = n" by simp
  then show ?case
    by (subst wallkick_floors.simps) (simp add: n_def accept_kick_def)
next
  case (Suc k)
  then have lt: "floor < n" and k: "k = n - Suc floor" by simp_all
  have IH: "wallkick_floors w p (floor + 1) =
     map_option (accept_kick w)
       (first_free w (concat (map (floor_candidates w (ptype p)) [Suc floor ..< n])))"
    using Suc.hyps(1) [OF k] lt by simp
  have unfold: "wallkick_floors w p floor =
     (case kick_floor w p floor of None \<Rightarrow> None | Some (Some w') \<Rightarrow> Some (True, w')
      | Some None \<Rightarrow> wallkick_floors w p (floor + 1))"
    using lt by (subst wallkick_floors.simps) (simp add: n_def)
  show ?case
    unfolding unfold IH kick_floor_first_free upt_conv_Cons [OF lt]
    by (simp add: first_free_append accept_kick_def split: option.splits prod.splits)
qed

lemma placeByWallKick_first_free:
  "active_piece w = Some p \<Longrightarrow>
     placeByWallKick w = map_option (accept_kick w) (first_free w (kick_candidates w (ptype p)))"
  using wallkick_floors_suffix [of 0 p w]
  by (simp add: placeByWallKick_def kick_candidates_def floor_candidates_def [abs_def])


text \<open>Claim C2, as the code has it. \<^verbatim>\<open>placeByWallKick\<close> is the search, in order, through
  the candidates of \<open>kick_candidates\<close>: floor by floor, on each floor the shift \<open>+1\<close>,
  then \<open>-1\<close>, then for the I piece \<open>+2\<close> if \<open>x + 2\<close> is left of the right edge of the
  board, then \<open>-2\<close> if \<open>x - 2\<close> is not negative. The first candidate found free becomes
  the position of the piece; if none is free the well is unchanged.\<close>

theorem placeByWallKick_order:
  "placeByWallKick w =
     (case active_piece w of
        None \<Rightarrow> None
      | Some p \<Rightarrow> map_option (accept_kick w) (first_free w (kick_candidates w (ptype p))))"
  by (cases "active_piece w") (simp_all add: placeByWallKick_first_free, simp add: placeByWallKick_def)

theorem placeByWallKick_order_witness:
  "map_option (\<lambda>w'. (active_piece_x w', active_piece_y w', map_option rotation (active_piece w')))
     (rotateCWNow wall_I) = Some (6, 5, Some 2)
   \<and> first_free (wall_I\<lparr>active_piece := Some ((example_piece Type_I)\<lparr>rotation := 2\<rparr>)\<rparr>)
       (kick_candidates (wall_I\<lparr>active_piece := Some ((example_piece Type_I)\<lparr>rotation := 2\<rparr>)\<rparr>) Type_I)
       = Some (Some (- 1, 0))
   \<and> map_option fst (placeByWallKick
         (wall_I\<lparr>active_piece := Some ((example_piece Type_I)\<lparr>rotation := 2\<rparr>)\<rparr>)) = Some True"
proof -
  let ?w = "wall_I\<lparr>active_piece := Some ((example_piece Type_I)\<lparr>rotation := 2\<rparr>)\<rparr>"
  have ff: "first_free ?w (kick_candidates ?w Type_I) = Some (Some (- 1, 0))"
    by code_simp
  have ap: "active_piece ?w = Some ((example_piece Type_I)\<lparr>rotation := 2\<rparr>)" by simp
  have pt: "ptype ((example_piece Type_I)\<lparr>rotation := 2\<rparr>) = Type_I"
    by (simp add: example_piece_def)
  have "placeByWallKick ?w = map_option (accept_kick ?w) (Some (Some (- 1, 0)))"
    using placeByWallKick_order [of ?w] unfolding ap option.case pt ff .
  then have "map_option fst (placeByWallKick ?w) = Some True"
    by (simp add: accept_kick_def)
  moreover have "map_option (\<lambda>w'. (active_piece_x w', active_piece_y w',
      map_option rotation (active_piece w'))) (rotateCWNow wall_I) = Some (6, 5, Some 2)"
    by code_simp
  ultimately show ?thesis using ff by simp
qed

text \<open>Claim C2 as stated fails for the I piece. Between the ledges, after the rotation
  to the upright state, the candidate two columns to the left on the same row is free and
  is the first free one in the stated order, but the code does not try it, finds no
  other, and the rotation fails.\<close>

theorem placeByWallKick_counterexample:
  "first_free (cramped_I\<lparr>active_piece := Some (rotateCW (example_piece Type_I))\<rparr>)
       (kick_candidates_spec Type_I) = Some (Some (- 2, 0))
   \<and> map_option fst
        (placeByWallKick (cramped_I\<lparr>active_piece := Some (rotateCW (example_piece Type_I))\<rparr>))
       = Some False
   \<and> hasCollisionAt cramped_I 1 10 = Some False
   \<and> map_option (\<lambda>w'. (active_piece_x w', active_piece_y w', map_option rotation (active_piece w')))
        (rotateCWNow cramped_I) = Some (1, 10, Some 0)"
  by code_simp





section \<open>Spawning onto a full stack\<close>

lemma lock_frame_refl: "lock_frame w w"
  by (simp add: lock_frame_def)

lemma lock_frame_trans: "lock_frame w w1 \<Longrightarrow> lock_frame w1 w2 \<Longrightarrow> lock_frame w w2"
  unfolding lock_frame_def by (cases w, cases w1, cases w2) auto

lemma lock_cell_frame: "lock_cell env w row cell = Some w' \<Longrightarrow> lock_frame w w'"
  by (auto simp: lock_cell_def Let_def lock_frame_def split: if_splits option.splits)

lemma lock_cells_frame: "lock_cells env w row cell = Some w' \<Longrightarrow> lock_frame w w'"
proof (induction env w row cell rule: lock_cells.induct)
  case (1 env w row cell)
  show ?case
  proof (cases "cell < 4")
    case False
    with "1.prems" show ?thesis by (subst (asm) lock_cells.simps) (simp add: lock_frame_refl)
  next
    case True
    with "1.prems" obtain w1 where a: "lock_cell env w row cell = Some w1"
      and b: "lock_cells env w1 row (cell + 1) = Some w'"
      by (subst (asm) lock_cells.simps) (auto split: option.splits)
    from lock_cell_frame [OF a] "1.IH" [OF True a b] show ?thesis by (rule lock_frame_trans)
  qed
qed

lemma lock_rows_frame: "lock_rows env w row = Some w' \<Longrightarrow> lock_frame w w'"
proof (induction env w row rule: lock_rows.induct)
  case (1 env w row)
  show ?case
  proof (cases "row < 4")
    case False
    with "1.prems" show ?thesis by (subst (asm) lock_rows.simps) (simp add: lock_frame_refl)
  next
    case True
    with "1.prems" obtain w1 where a: "lock_cells env w row 0 = Some w1"
      and b: "lock_rows env w1 (row + 1) = Some w'"
      by (subst (asm) lock_rows.simps) (auto split: option.splits)
    from lock_cells_frame [OF a] "1.IH" [OF True a b] show ?thesis by (rule lock_frame_trans)
  qed
qed

lemma set_scan_rows:
  "set (scan_rows m rows pending) = set pending \<union> {r \<in> set rows. row_filled (m ! r)}"
  by (induction rows arbitrary: pending) (auto simp: set_insort_insert)

lemma distinct_scan_rows:
  "distinct pending \<Longrightarrow> distinct (scan_rows m rows pending)"
  by (induction rows arbitrary: pending) (auto simp: distinct_insort_insert)

lemma clear_row_fields:
  "active_piece (clear_row env w row) = active_piece w"
  "gameover (clear_row env w row) = gameover w"
  "emitted (clear_row env w row) = emitted w"
  "pending_cleared_rows (clear_row env w row) = pending_cleared_rows w"
  "length (matrix (clear_row env w row)) = length (matrix w)"
  by (simp_all add: clear_row_def Let_def)

lemma clear_row_matrix:
  "i < length (matrix w) \<Longrightarrow>
     matrix (clear_row env w row) ! i =
       (if i = row then map (\<lambda>c. None) (matrix w ! i) else matrix w ! i)"
  by (simp add: clear_row_def Let_def nth_list_update)

lemma clear_rows_fields:
  "active_piece (foldl (clear_row env) w rs) = active_piece w
   \<and> gameover (foldl (clear_row env) w rs) = gameover w
   \<and> emitted (foldl (clear_row env) w rs) = emitted w
   \<and> pending_cleared_rows (foldl (clear_row env) w rs) = pending_cleared_rows w
   \<and> length (matrix (foldl (clear_row env) w rs)) = length (matrix w)"
  by (induction rs arbitrary: w) (simp_all add: clear_row_fields)

lemma clear_rows_matrix:
  "i < length (matrix w) \<Longrightarrow>
     matrix (foldl (clear_row env) w rs) ! i =
       (if i \<in> set rs then map (\<lambda>c. None) (matrix w ! i) else matrix w ! i)"
proof (induction rs arbitrary: w)
  case Nil
  then show ?case by simp
next
  case (Cons r rs)
  have "i < length (matrix (clear_row env w r))" using Cons.prems by (simp add: clear_row_fields)
  from Cons.IH [OF this] show ?case
    using Cons.prems by (simp add: clear_row_matrix)
qed

lemma checkLineclear_effect:
  assumes "active_piece w = None"
    and "length (scan_rows (matrix w) [0 ..< length (matrix w)] (pending_cleared_rows w)) \<le> 4"
  shows "\<exists>w'. checkLineclear env w = Some w'
     \<and> pending_cleared_rows w' =
         scan_rows (matrix w) [0 ..< length (matrix w)] (pending_cleared_rows w)
     \<and> active_piece w' = None \<and> gameover w' = gameover w \<and> emitted w' = emitted w
     \<and> length (matrix w') = length (matrix w)
     \<and> (\<forall>i<length (matrix w). matrix w' ! i =
            (if i \<in> set (pending_cleared_rows w') then map (\<lambda>c. None) (matrix w ! i)
             else matrix w ! i))"
proof -
  let ?pending = "scan_rows (matrix w) [0 ..< length (matrix w)] (pending_cleared_rows w)"
  let ?w1 = "w\<lparr>pending_cleared_rows := ?pending\<rparr>"
  show ?thesis
  proof (cases "?pending = []")
    case True
    then have "checkLineclear env w = Some ?w1"
      using assms by (simp add: checkLineclear_def Let_def)
    then show ?thesis using assms(1) True by simp
  next
    case False
    let ?w2 = "foldl (clear_row env) ?w1 ?pending"
    have "checkLineclear env w = Some (resetInput ?w2)"
      using assms False by (simp add: checkLineclear_def Let_def)
    moreover have "pending_cleared_rows (resetInput ?w2) = ?pending"
      "active_piece (resetInput ?w2) = None" "gameover (resetInput ?w2) = gameover w"
      "emitted (resetInput ?w2) = emitted w"
      "length (matrix (resetInput ?w2)) = length (matrix w)"
      using assms(1) clear_rows_fields [of env ?w1 ?pending]
      by (simp_all add: resetInput_def resetDAS_def)
    moreover have "\<forall>i<length (matrix w). matrix (resetInput ?w2) ! i =
            (if i \<in> set ?pending then map (\<lambda>c. None) (matrix w ! i) else matrix w ! i)"
      using clear_rows_matrix [of _ ?w1 env ?pending]
      by (simp add: resetInput_def resetDAS_def)
    ultimately show ?thesis by simp
  qed
qed

lemma hasCollisionAt_position:
  "hasCollisionAt (w\<lparr>active_piece_y := y\<rparr>) ox oy = hasCollisionAt w ox oy"
  "hasCollisionAt (w\<lparr>active_piece_x := x\<rparr>) ox oy = hasCollisionAt w ox oy"
  by (simp_all add: hasCollisionAt_def split: option.splits)

lemma spawn_loop_step:
  assumes "active_piece_y w = Suc n" and "hasCollisionAt w (active_piece_x w) n = Some True"
  shows "spawn_loop w = spawn_loop (w\<lparr>active_piece_y := n\<rparr>)"
  using assms by (subst spawn_loop.simps) (simp add: hasCollisionAt_position)

lemma spawn_loop_end: "active_piece_y w = 0 \<Longrightarrow> spawn_loop w = Some (False, w)"
  by (subst spawn_loop.simps) simp

lemma spawn_loop_blocked:
  assumes "active_piece_y w = 3"
    and "\<forall>y<3. hasCollisionAt w (active_piece_x w) y = Some True"
  shows "spawn_loop w = Some (False, w\<lparr>active_piece_y := 0\<rparr>)"
proof -
  have c: "hasCollisionAt w (active_piece_x w) (Suc (Suc 0)) = Some True"
    "hasCollisionAt w (active_piece_x w) (Suc 0) = Some True"
    "hasCollisionAt w (active_piece_x w) 0 = Some True"
    using assms(2) by (simp_all add: numeral_3_eq_3)
  have "spawn_loop w = spawn_loop (w\<lparr>active_piece_y := Suc (Suc 0)\<rparr>)"
    using assms(1) c(1) by (intro spawn_loop_step) (simp_all add: numeral_3_eq_3)
  also have "\<dots> = spawn_loop (w\<lparr>active_piece_y := Suc (Suc 0), active_piece_y := Suc 0\<rparr>)"
    using c(2) by (intro spawn_loop_step) (simp_all add: hasCollisionAt_position)
  also have "\<dots> = spawn_loop (w\<lparr>active_piece_y := Suc (Suc 0), active_piece_y := Suc 0,
      active_piece_y := 0\<rparr>)"
    using c(3) by (intro spawn_loop_step) (simp_all add: hasCollisionAt_position)
  also have "\<dots> = Some (False, w\<lparr>active_piece_y := 0\<rparr>)"
    by (subst spawn_loop_end) simp_all
  finally show ?thesis .
qed

lemma hasCollisionAt_Some:
  "hasCollisionAt w ox oy = Some b \<Longrightarrow>
     ox < int (matrix_cols (matrix w)) \<and> oy < length (matrix w)"
  by (simp add: hasCollisionAt_def split: if_splits)

lemma lock_frame_fields:
  "lock_frame w w' \<Longrightarrow>
     pending_cleared_rows w' = pending_cleared_rows w \<and> emitted w' = emitted w
     \<and> gameover w' = gameover w \<and> blocking_anims w' = blocking_anims w"
  unfolding lock_frame_def by (cases w, cases w') auto

lemma scan_rows_bound:
  assumes "\<forall>r<length m. row_filled (m ! r) \<longrightarrow> r < 4"
  shows "length (scan_rows m [0 ..< length m] []) \<le> 4"
proof -
  let ?S = "scan_rows m [0 ..< length m] []"
  have "distinct ?S" by (rule distinct_scan_rows) simp
  then have "length ?S = card (set ?S)" by (simp add: distinct_card)
  also have "set ?S \<subseteq> {0 ..< 4}" using assms by (auto simp: set_scan_rows)
  then have "card (set ?S) \<le> card {0 ..< 4 :: nat}" by (intro card_mono) simp_all
  finally show ?thesis by simp
qed

text \<open>Claim C6. Without an active piece, on a board in play (no pending rows, no full
  row), if the new piece collides at column 3 in each of the rows 2, 1 and 0, then
  \<^verbatim>\<open>addPiece\<close> locks it at column 3 and row 0 and ends the game. The write loops of the
  lock return a board \<open>w1\<close> of the same height that holds every occupied cell of the
  piece's grid whose target is on the board, at that target, and is elsewhere the board
  before the call. \<^verbatim>\<open>addPiece\<close> returns; the game is over, the piece released and
  \<open>PIECE_LOCKED\<close> emitted; and the line clear check that ends the lock has run on \<open>w1\<close>:
  the pending rows are the full rows of \<open>w1\<close>, those rows are emptied, and every other
  row of the result is the row of \<open>w1\<close>.\<close>

theorem addPiece_gameover:
  assumes ap: "active_piece w = None" and mk: "matrix_ok (matrix w)"
    and g: "grid_ok (currentGrid (make_uptr env t))"
    and pend: "pending_cleared_rows w = []"
    and nofull: "\<forall>i<length (matrix w). \<not> row_filled (matrix w ! i)"
    and coll: "\<forall>y<3. hasCollisionAt (w\<lparr>active_piece := Some (make_uptr env t)\<rparr>) 3 y = Some True"
  shows "\<exists>w1 w'.
       lock_rows env (w\<lparr>active_piece := Some (make_uptr env t), active_piece_x := 3,
                        active_piece_y := 0\<rparr>) 0 = Some w1
     \<and> length (matrix w1) = length (matrix w)
     \<and> (\<forall>r<4. \<forall>c<4. currentGrid (make_uptr env t) ! r ! c \<noteq> None
            \<and> r < length (matrix w) \<and> 3 + c < matrix_cols (matrix w)
          \<longrightarrow> matrix w1 ! r ! (3 + c) = currentGrid (make_uptr env t) ! r ! c)
     \<and> (\<forall>i<length (matrix w). \<forall>j<matrix_cols (matrix w).
            \<not> (\<exists>r<4. \<exists>c<4. i = r \<and> j = 3 + c \<and> currentGrid (make_uptr env t) ! r ! c \<noteq> None)
          \<longrightarrow> matrix w1 ! i ! j = matrix w ! i ! j)
     \<and> addPiece env w t = Some w' \<and> gameover w' \<and> active_piece w' = None
     \<and> emitted w' = emitted w @ [PIECE_LOCKED]
     \<and> length (matrix w') = length (matrix w)
     \<and> set (pending_cleared_rows w') = {i. i < length (matrix w) \<and> row_filled (matrix w1 ! i)}
     \<and> (\<forall>i<length (matrix w). matrix w' ! i =
            (if row_filled (matrix w1 ! i) then map (\<lambda>c. None) (matrix w1 ! i)
             else matrix w1 ! i))"
proof -
  let ?p = "make_uptr env t"
  let ?H = "length (matrix w)" and ?W = "matrix_cols (matrix w)"
  define wl where "wl = w\<lparr>active_piece := Some ?p, active_piece_x := 3, active_piece_y := 0\<rparr>"
  have wl: "matrix wl = matrix w" "active_piece wl = Some ?p" "active_piece_x wl = 3"
    "active_piece_y wl = 0" "pending_cleared_rows wl = []" "emitted wl = emitted w"
    by (simp_all add: wl_def pend)
  from coll have "hasCollisionAt (w\<lparr>active_piece := Some ?p\<rparr>) 3 0 = Some True" by simp
  from hasCollisionAt_Some [OF this] have dims: "3 < int ?W" "0 < ?H" by simp_all
  \<comment> \<open>the loop over the spawn rows runs out\<close>
  have spawn: "spawn_loop (w\<lparr>active_piece := Some ?p, active_piece_x := 3, active_piece_y := 3\<rparr>)
      = Some (False, wl)"
    using spawn_loop_blocked [of "w\<lparr>active_piece := Some ?p, active_piece_x := 3,
      active_piece_y := 3\<rparr>"] coll
    by (simp add: hasCollisionAt_position wl_def)
  \<comment> \<open>the piece is written into the board\<close>
  from lock_rows_effect [of wl ?p env] mk g dims obtain w1 where
    lr: "lock_rows env wl 0 = Some w1"
    and len: "length (matrix w1) = ?H"
    and lens: "\<forall>i<?H. length (matrix w1 ! i) = length (matrix w ! i)"
    and written: "\<forall>r<4. \<forall>c<4. currentGrid ?p ! r ! c \<noteq> None \<and> 0 + r < ?H
        \<and> 0 \<le> 3 + int c \<and> 3 + int c < int ?W
        \<longrightarrow> matrix w1 ! (0 + r) ! nat (3 + int c) = currentGrid ?p ! r ! c"
    and kept: "\<forall>i<?H. \<forall>j<?W. \<not> (\<exists>r<4. \<exists>c<4. i = 0 + r \<and> int j = 3 + int c
        \<and> currentGrid ?p ! r ! c \<noteq> None) \<longrightarrow> matrix w1 ! i ! j = matrix w ! i ! j"
    and lock: "lockAndReleasePiece env wl = checkLineclear env (notify PIECE_LOCKED
        (w1\<lparr>active_piece := None, lock_countdown := cd_stop (lock_countdown w1)\<rparr>))"
    unfolding wl by auto
  from lock_frame_fields [OF lock_rows_frame [OF lr]] wl
  have fr: "pending_cleared_rows w1 = []" "emitted w1 = emitted w" by simp_all
  define w2 where "w2 = notify PIECE_LOCKED
      (w1\<lparr>active_piece := None, lock_countdown := cd_stop (lock_countdown w1)\<rparr>)"
  have w2: "matrix w2 = matrix w1" "active_piece w2 = None" "pending_cleared_rows w2 = []"
    "emitted w2 = emitted w @ [PIECE_LOCKED]"
    by (simp_all add: w2_def notify_def fr)
  \<comment> \<open>only the rows of the piece can be full\<close>
  have wid: "\<And>i. i < ?H \<Longrightarrow> length (matrix w1 ! i) = ?W"
    using lens matrix_ok_cols [OF mk] by simp
  have low: "\<And>i. i < ?H \<Longrightarrow> 4 \<le> i \<Longrightarrow> matrix w1 ! i = matrix w ! i"
  proof (rule nth_equalityI)
    fix i assume i: "i < ?H" "4 \<le> i"
    show "length (matrix w1 ! i) = length (matrix w ! i)" using lens i by simp
    fix j assume "j < length (matrix w1 ! i)"
    then have j: "j < ?W" using wid [OF i(1)] by simp
    have "\<not> (\<exists>r<4. \<exists>c<4. i = 0 + r \<and> int j = 3 + int c \<and> currentGrid ?p ! r ! c \<noteq> None)"
      using i(2) by auto
    with kept i(1) j show "matrix w1 ! i ! j = matrix w ! i ! j" by blast
  qed
  have "\<forall>r<length (matrix w1). row_filled (matrix w1 ! r) \<longrightarrow> r < 4"
  proof (intro allI impI)
    fix r assume r: "r < length (matrix w1)" and f: "row_filled (matrix w1 ! r)"
    show "r < 4"
    proof (rule ccontr)
      assume "\<not> r < 4"
      then have "matrix w1 ! r = matrix w ! r" using low r len by simp
      with f nofull r len show False by simp
    qed
  qed
  from scan_rows_bound [OF this]
  have "length (scan_rows (matrix w2) [0 ..< length (matrix w2)] (pending_cleared_rows w2)) \<le> 4"
    by (simp add: w2)
  from checkLineclear_effect [OF w2(2) this, of env] obtain w3 where
    cl: "checkLineclear env w2 = Some w3"
    and pd3: "pending_cleared_rows w3 =
        scan_rows (matrix w2) [0 ..< length (matrix w2)] (pending_cleared_rows w2)"
    and w3: "active_piece w3 = None" "emitted w3 = emitted w2"
      "length (matrix w3) = length (matrix w2)"
    and rows3: "\<forall>i<length (matrix w2). matrix w3 ! i =
        (if i \<in> set (pending_cleared_rows w3) then map (\<lambda>c. None) (matrix w2 ! i)
         else matrix w2 ! i)"
    by blast
  have add: "addPiece env w t = Some (w3\<lparr>gameover := True\<rparr>)"
    using ap by (simp add: addPiece_def spawn lock cl [unfolded w2_def])
  have pset: "set (pending_cleared_rows w3) = {i. i < ?H \<and> row_filled (matrix w1 ! i)}"
    unfolding pd3 by (auto simp: set_scan_rows w2 len)
  have cells: "\<forall>r<4. \<forall>c<4. currentGrid ?p ! r ! c \<noteq> None \<and> r < ?H \<and> 3 + c < ?W
      \<longrightarrow> matrix w1 ! r ! (3 + c) = currentGrid ?p ! r ! c"
  proof (intro allI impI)
    fix r c :: nat
    assume r: "r < 4" and c: "c < 4"
      and h: "currentGrid ?p ! r ! c \<noteq> None \<and> r < ?H \<and> 3 + c < ?W"
    have n: "nat (3 + int c) = 3 + c" by simp
    show "matrix w1 ! r ! (3 + c) = currentGrid ?p ! r ! c"
      using written [rule_format, OF r c] h unfolding n by simp
  qed
  have others: "\<forall>i<?H. \<forall>j<?W.
      \<not> (\<exists>r<4. \<exists>c<4. i = r \<and> j = 3 + c \<and> currentGrid ?p ! r ! c \<noteq> None)
      \<longrightarrow> matrix w1 ! i ! j = matrix w ! i ! j"
  proof (intro allI impI)
    fix i j :: nat
    assume i: "i < ?H" and j: "j < ?W"
      and n: "\<not> (\<exists>r<4. \<exists>c<4. i = r \<and> j = 3 + c \<and> currentGrid ?p ! r ! c \<noteq> None)"
    have "\<not> (\<exists>r<4. \<exists>c<4. i = 0 + r \<and> int j = 3 + int c \<and> currentGrid ?p ! r ! c \<noteq> None)"
    proof
      assume "\<exists>r<4. \<exists>c<4. i = 0 + r \<and> int j = 3 + int c \<and> currentGrid ?p ! r ! c \<noteq> None"
      then obtain r c where "r < 4" "c < 4" "i = 0 + r" "int j = 3 + int c"
        "currentGrid ?p ! r ! c \<noteq> None" by blast
      moreover from this have "j = 3 + c" by linarith
      ultimately show False using n by auto
    qed
    with kept i j show "matrix w1 ! i ! j = matrix w ! i ! j" by blast
  qed
  have rows: "\<forall>i<?H. matrix w3 ! i =
      (if row_filled (matrix w1 ! i) then map (\<lambda>c. None) (matrix w1 ! i) else matrix w1 ! i)"
    using rows3 pset by (simp add: w2 len)
  have "lock_rows env wl 0 = Some w1 \<and> length (matrix w1) = ?H
     \<and> (\<forall>r<4. \<forall>c<4. currentGrid ?p ! r ! c \<noteq> None \<and> r < ?H \<and> 3 + c < ?W
          \<longrightarrow> matrix w1 ! r ! (3 + c) = currentGrid ?p ! r ! c)
     \<and> (\<forall>i<?H. \<forall>j<?W.
            \<not> (\<exists>r<4. \<exists>c<4. i = r \<and> j = 3 + c \<and> currentGrid ?p ! r ! c \<noteq> None)
          \<longrightarrow> matrix w1 ! i ! j = matrix w ! i ! j)
     \<and> addPiece env w t = Some (w3\<lparr>gameover := True\<rparr>) \<and> gameover (w3\<lparr>gameover := True\<rparr>)
     \<and> active_piece (w3\<lparr>gameover := True\<rparr>) = None
     \<and> emitted (w3\<lparr>gameover := True\<rparr>) = emitted w @ [PIECE_LOCKED]
     \<and> length (matrix (w3\<lparr>gameover := True\<rparr>)) = ?H
     \<and> set (pending_cleared_rows (w3\<lparr>gameover := True\<rparr>))
         = {i. i < ?H \<and> row_filled (matrix w1 ! i)}
     \<and> (\<forall>i<?H. matrix (w3\<lparr>gameover := True\<rparr>) ! i =
            (if row_filled (matrix w1 ! i) then map (\<lambda>c. None) (matrix w1 ! i)
             else matrix w1 ! i))"
    using lr len cells others add w3 w2 pset rows by simp
  then show ?thesis unfolding wl_def by blast
qed

theorem addPiece_gameover_witness:
  "active_piece brimming = None \<and> matrix_ok (matrix brimming)
   \<and> grid_ok (currentGrid (make_uptr example_env Type_T))
   \<and> pending_cleared_rows brimming = []
   \<and> list_all (\<lambda>row. \<not> row_filled row) (matrix brimming)
   \<and> list_all (\<lambda>y. hasCollisionAt
          (brimming\<lparr>active_piece := Some (make_uptr example_env Type_T)\<rparr>) 3 y = Some True)
        [0, 1, 2]
   \<and> (\<exists>w1 w'. lock_rows example_env (brimming\<lparr>active_piece := Some (make_uptr example_env Type_T),
                   active_piece_x := 3, active_piece_y := 0\<rparr>) 0 = Some w1
         \<and> matrix w1 ! 0 ! 4 = Some (Mino Type_T) \<and> matrix w1 ! 1 ! 3 = Some (Mino Type_T)
         \<and> matrix w1 ! 1 ! 4 = Some (Mino Type_T) \<and> matrix w1 ! 1 ! 5 = Some (Mino Type_T)
         \<and> matrix w1 ! 1 ! 0 = Some (Mino Type_O) \<and> matrix w1 ! 0 ! 3 = None
         \<and> addPiece example_env brimming Type_T = Some w' \<and> gameover w' \<and> active_piece w' = None
         \<and> emitted w' = [PIECE_LOCKED] \<and> pending_cleared_rows w' = [1]
         \<and> matrix w' ! 0 ! 4 = Some (Mino Type_T)
         \<and> matrix w' ! 1 = replicate 10 None
         \<and> matrix w' ! 2 = matrix brimming ! 2)"
proof -
  let ?p = "make_uptr example_env Type_T"
  have h1: "active_piece brimming = None" by code_simp
  have dims: "length (matrix brimming) = 22" "matrix_cols (matrix brimming) = 10" by code_simp+
  have rect: "matrix brimming \<noteq> []"
    "list_all (\<lambda>r. length r = matrix_cols (matrix brimming)) (matrix brimming)" by code_simp+
  have h2: "matrix_ok (matrix brimming)"
    unfolding matrix_ok_def using rect by (simp add: dims)
  have h3: "grid_ok (currentGrid ?p)" by code_simp
  have h4: "pending_cleared_rows brimming = []" by code_simp
  have h5: "\<forall>i<length (matrix brimming). \<not> row_filled (matrix brimming ! i)" by code_simp
  have h6: "\<forall>y<3. hasCollisionAt (brimming\<lparr>active_piece := Some ?p\<rparr>) 3 y = Some True"
    by code_simp
  have e: "emitted brimming = []" by code_simp
  have p: "map_option pending_cleared_rows (addPiece example_env brimming Type_T) = Some [1]"
    by code_simp
  have got: "map_option (\<lambda>w1. (matrix w1 ! 0, matrix w1 ! 1, matrix w1 ! 2))
      (lock_rows example_env (brimming\<lparr>active_piece := Some ?p, active_piece_x := 3,
         active_piece_y := 0\<rparr>) 0)
    = Some (map (\<lambda>j. if j = 4 then Some (Mino Type_T) else None) [0 ..< 10],
            map (\<lambda>j. if j \<in> {3, 4, 5} then Some (Mino Type_T) else Some (Mino Type_O)) [0 ..< 10],
            matrix brimming ! 2)"
    by code_simp
  from addPiece_gameover [OF h1 h2 h3 h4 h5 h6] obtain w1 w' where
    lr: "lock_rows example_env (brimming\<lparr>active_piece := Some ?p, active_piece_x := 3,
         active_piece_y := 0\<rparr>) 0 = Some w1"
    and a: "addPiece example_env brimming Type_T = Some w'" "gameover w'" "active_piece w' = None"
      "emitted w' = emitted brimming @ [PIECE_LOCKED]"
    and rows: "\<forall>i<length (matrix brimming). matrix w' ! i =
            (if row_filled (matrix w1 ! i) then map (\<lambda>c. None) (matrix w1 ! i)
             else matrix w1 ! i)"
    by blast
  from got lr have m: "matrix w1 ! 0 = map (\<lambda>j. if j = 4 then Some (Mino Type_T) else None) [0 ..< 10]"
    "matrix w1 ! 1
       = map (\<lambda>j. if j \<in> {3, 4, 5} then Some (Mino Type_T) else Some (Mino Type_O)) [0 ..< 10]"
    "matrix w1 ! 2 = matrix brimming ! 2" by simp_all
  have f: "\<not> row_filled (matrix w1 ! 0)" "row_filled (matrix w1 ! 1)"
    "\<not> row_filled (matrix brimming ! 2)"
    unfolding m by code_simp+
  have c1: "matrix w1 ! 0 ! 4 = Some (Mino Type_T)" "matrix w1 ! 1 ! 3 = Some (Mino Type_T)"
    "matrix w1 ! 1 ! 4 = Some (Mino Type_T)" "matrix w1 ! 1 ! 5 = Some (Mino Type_T)"
    "matrix w1 ! 1 ! 0 = Some (Mino Type_O)" "matrix w1 ! 0 ! 3 = None"
    unfolding m by code_simp+
  have r0: "matrix w' ! 0 = matrix w1 ! 0" using rows [rule_format, of 0] f by (simp add: dims)
  have r1: "matrix w' ! 1 = map (\<lambda>c. None) (matrix w1 ! 1)"
    using rows [rule_format, of 1] f by (simp add: dims)
  have r2: "matrix w' ! 2 = matrix brimming ! 2"
    using rows [rule_format, of 2] f m by (simp add: dims)
  have n1: "map (\<lambda>c. None) (matrix w1 ! 1) = replicate 10 (None :: cell)"
    unfolding m by code_simp
  from p a(1) have pw: "pending_cleared_rows w' = [1]" by simp
  have "\<exists>w1 w'. lock_rows example_env (brimming\<lparr>active_piece := Some ?p,
                   active_piece_x := 3, active_piece_y := 0\<rparr>) 0 = Some w1
         \<and> matrix w1 ! 0 ! 4 = Some (Mino Type_T) \<and> matrix w1 ! 1 ! 3 = Some (Mino Type_T)
         \<and> matrix w1 ! 1 ! 4 = Some (Mino Type_T) \<and> matrix w1 ! 1 ! 5 = Some (Mino Type_T)
         \<and> matrix w1 ! 1 ! 0 = Some (Mino Type_O) \<and> matrix w1 ! 0 ! 3 = None
         \<and> addPiece example_env brimming Type_T = Some w' \<and> gameover w' \<and> active_piece w' = None
         \<and> emitted w' = [PIECE_LOCKED] \<and> pending_cleared_rows w' = [1]
         \<and> matrix w' ! 0 ! 4 = Some (Mino Type_T)
         \<and> matrix w' ! 1 = replicate 10 None
         \<and> matrix w' ! 2 = matrix brimming ! 2"
    using lr c1 a e pw r0 r1 r2 n1 by auto
  moreover have "list_all (\<lambda>row. \<not> row_filled row) (matrix brimming)"
    "list_all (\<lambda>y. hasCollisionAt (brimming\<lparr>active_piece := Some ?p\<rparr>) 3 y = Some True)
        [0, 1, 2]" by code_simp+
  ultimately show ?thesis using h1 h2 h3 h4 by blast
qed

section \<open>Horizontal auto-repeat\<close>

lemma hasCollisionAt_total:
  assumes "active_piece w = Some p" and "grid_ok (currentGrid p)"
    and "0 \<le> offset_x + 3" and "offset_x < int (matrix_cols (matrix w))"
    and "offset_y < length (matrix w)" and "length (matrix w) + 4 < 2 ^ 32"
  shows "\<exists>b. hasCollisionAt w offset_x offset_y = Some b"
  using hasCollisionAt_result [OF assms] by blast

lemma hasCollisionAt_ghost:
  "hasCollisionAt (w\<lparr>ghost_piece_y := g\<rparr>) ox oy = hasCollisionAt w ox oy"
  by (simp add: hasCollisionAt_def split: option.splits)

lemma ghost_loop_total:
  assumes ap: "active_piece w = Some p" and g: "grid_ok (currentGrid p)"
    and x: "0 \<le> active_piece_x w + 3" "active_piece_x w < int (matrix_cols (matrix w))"
    and H: "length (matrix w) + 4 < 2 ^ 32"
  shows "gh < length (matrix w) \<Longrightarrow>
     \<exists>g'. ghost_loop (w\<lparr>ghost_piece_y := gh\<rparr>) = Some (w\<lparr>ghost_piece_y := g'\<rparr>)
        \<and> gh \<le> g' \<and> g' < length (matrix w)"
proof (induction "length (matrix w) - gh" arbitrary: gh)
  case 0
  then show ?case by simp
next
  case (Suc k)
  have nx: "u32 (int gh + 1) = gh + 1"
  proof -
    have "gh + 1 < 2 ^ 32" using Suc.prems H by simp
    from u32_plus [OF this] show ?thesis by simp
  qed
  show ?case
  proof (cases "gh + 1 < length (matrix w)")
    case False
    then have "ghost_loop (w\<lparr>ghost_piece_y := gh\<rparr>) = Some (w\<lparr>ghost_piece_y := gh\<rparr>)"
      by (subst ghost_loop.simps) (simp add: nx)
    with Suc.prems show ?thesis by blast
  next
    case True
    from hasCollisionAt_total [OF ap g x True H] obtain b where
      b: "hasCollisionAt w (active_piece_x w) (gh + 1) = Some b" by blast
    show ?thesis
    proof (cases b)
      case True
      with b \<open>gh + 1 < length (matrix w)\<close>
      have "ghost_loop (w\<lparr>ghost_piece_y := gh\<rparr>) = Some (w\<lparr>ghost_piece_y := gh\<rparr>)"
        by (subst ghost_loop.simps) (simp add: nx hasCollisionAt_ghost)
      with Suc.prems show ?thesis by blast
    next
      case False
      have k: "k = length (matrix w) - (gh + 1)" using Suc.hyps(2) by simp
      from Suc.hyps(1) [OF k \<open>gh + 1 < length (matrix w)\<close>] obtain g' where
        r: "ghost_loop (w\<lparr>ghost_piece_y := gh + 1\<rparr>) = Some (w\<lparr>ghost_piece_y := g'\<rparr>)"
        and g': "gh + 1 \<le> g'" "g' < length (matrix w)" by blast
      from False b \<open>gh + 1 < length (matrix w)\<close>
      have "ghost_loop (w\<lparr>ghost_piece_y := gh\<rparr>) = ghost_loop (w\<lparr>ghost_piece_y := gh + 1\<rparr>)"
        by (subst ghost_loop.simps) (simp add: nx hasCollisionAt_ghost)
      with r g' show ?thesis by auto
    qed
  qed
qed

lemma calculateGhostOffset_total:
  assumes "active_piece w = Some p" and "grid_ok (currentGrid p)"
    and "0 \<le> active_piece_x w + 3" and "active_piece_x w < int (matrix_cols (matrix w))"
    and "length (matrix w) + 4 < 2 ^ 32" and "active_piece_y w < length (matrix w)"
  shows "\<exists>g'. calculateGhostOffset w = Some (w\<lparr>ghost_piece_y := g'\<rparr>)"
  using ghost_loop_total [OF assms(1-5), of "active_piece_y w"] assms(1,6)
  by (auto simp: calculateGhostOffset_def)

lemma hasCollisionAt_cong:
  "matrix w' = matrix w \<Longrightarrow> active_piece w' = active_piece w \<Longrightarrow>
     hasCollisionAt w' ox oy = hasCollisionAt w ox oy"
  by (simp add: hasCollisionAt_def split: option.splits)

lemma moveLeftNow_moves:
  assumes ap: "active_piece w = Some p" and g: "grid_ok (currentGrid p)"
    and H: "length (matrix w) + 4 < 2 ^ 32" and x: "- 2 < active_piece_x w"
    and free: "hasCollisionAt w (active_piece_x w - 1) (active_piece_y w) = Some False"
  shows "\<exists>g' c'. moveLeftNow w =
     Some (w\<lparr>active_piece_x := active_piece_x w - 1, ghost_piece_y := g', lock_countdown := c'\<rparr>)"
proof -
  let ?w1 = "w\<lparr>active_piece_x := active_piece_x w - 1\<rparr>"
  from hasCollisionAt_Some [OF free]
  have b: "active_piece_x w - 1 < int (matrix_cols (matrix w))" "active_piece_y w < length (matrix w)"
    by simp_all
  from calculateGhostOffset_total [of ?w1 p] ap g H x b obtain g' where
    gh: "calculateGhostOffset ?w1 = Some (?w1\<lparr>ghost_piece_y := g'\<rparr>)" by auto
  show ?thesis
  proof (cases "lock_infinity w")
    case True
    have "moveLeftNow w = Some (w\<lparr>active_piece_x := active_piece_x w - 1, ghost_piece_y := g',
        lock_countdown := cd_stop (lock_countdown w)\<rparr>)"
      using ap x free gh True by (simp add: moveLeftNow_def)
    then show ?thesis by blast
  next
    case False
    have "moveLeftNow w = Some (w\<lparr>active_piece_x := active_piece_x w - 1, ghost_piece_y := g',
        lock_countdown := lock_countdown w\<rparr>)"
      using ap x free gh False by (simp add: moveLeftNow_def)
    then show ?thesis by blast
  qed
qed

lemma moveRightNow_moves:
  assumes ap: "active_piece w = Some p" and g: "grid_ok (currentGrid p)"
    and H: "length (matrix w) + 4 < 2 ^ 32" and x: "- 4 \<le> active_piece_x w"
    and free: "hasCollisionAt w (active_piece_x w + 1) (active_piece_y w) = Some False"
  shows "\<exists>g' c'. moveRightNow w =
     Some (w\<lparr>active_piece_x := active_piece_x w + 1, ghost_piece_y := g', lock_countdown := c'\<rparr>)"
proof -
  let ?w1 = "w\<lparr>active_piece_x := active_piece_x w + 1\<rparr>"
  from hasCollisionAt_Some [OF free]
  have b: "active_piece_x w + 1 < int (matrix_cols (matrix w))" "active_piece_y w < length (matrix w)"
    by simp_all
  from calculateGhostOffset_total [of ?w1 p] ap g H x b obtain g' where
    gh: "calculateGhostOffset ?w1 = Some (?w1\<lparr>ghost_piece_y := g'\<rparr>)" by auto
  show ?thesis
  proof (cases "lock_infinity w")
    case True
    have "moveRightNow w = Some (w\<lparr>active_piece_x := active_piece_x w + 1, ghost_piece_y := g',
        lock_countdown := cd_stop (lock_countdown w)\<rparr>)"
      using ap b(1) free gh True by (simp add: moveRightNow_def)
    then show ?thesis by blast
  next
    case False
    have "moveRightNow w = Some (w\<lparr>active_piece_x := active_piece_x w + 1, ghost_piece_y := g',
        lock_countdown := lock_countdown w\<rparr>)"
      using ap b(1) free gh False by (simp add: moveRightNow_def)
    then show ?thesis by blast
  qed
qed

lemma handleKeys_single_press:
  assumes idle: "\<forall>k. \<not> keystates w k" and key: "key = LEFT \<or> key = RIGHT"
  shows "handleKeys env (updateKeystate w [\<lparr>ev_type = key, ev_down = True\<rparr>])
            [\<lparr>ev_type = key, ev_down = True\<rparr>] =
         handle_horizontal env (before_horizontal env w key) \<bind> handle_softdrop env"
  using assms
  by (auto simp: handleKeys_def updateKeystate_def handle_event_def handle_rotation_def
        before_horizontal_def Let_def)

lemma handle_softdrop_idle:
  "\<not> keystates w DOWN \<Longrightarrow>
     handle_softdrop env w = Some (w\<lparr>softdrop_timer := softdrop_timer w - frame_duration env\<rparr>)"
  by (simp add: handle_softdrop_def Let_def)

lemma handle_horizontal_waits:
  "frame_duration env < horizontal_timer w \<Longrightarrow>
     handle_horizontal env w =
       Some (w\<lparr>horizontal_timer := horizontal_timer w - frame_duration env\<rparr>)"
  by (simp add: handle_horizontal_def Let_def)

lemma handle_horizontal_left:
  assumes "horizontal_timer w \<le> frame_duration env" and "keystates w LEFT" and "\<not> keystates w RIGHT"
  shows "handle_horizontal env w =
     map_option update_das
       (moveLeftNow (w\<lparr>horizontal_timer := horizontal_timer w - frame_duration env\<rparr>))"
  using assms by (cases "moveLeftNow (w\<lparr>horizontal_timer := horizontal_timer w - frame_duration env\<rparr>)")
    (simp_all add: handle_horizontal_def Let_def)

lemma handle_horizontal_right:
  assumes "horizontal_timer w \<le> frame_duration env" and "\<not> keystates w LEFT" and "keystates w RIGHT"
  shows "handle_horizontal env w =
     map_option update_das
       (moveRightNow (w\<lparr>horizontal_timer := horizontal_timer w - frame_duration env\<rparr>))"
  using assms by (cases "moveRightNow (w\<lparr>horizontal_timer := horizontal_timer w - frame_duration env\<rparr>)")
    (simp_all add: handle_horizontal_def Let_def)

lemma update_das_fields:
  "active_piece_x (update_das w) = active_piece_x w"
  "keystates (update_das w) = keystates w"
  by (simp_all add: update_das_def Let_def)

lemma press_moves_left:
  assumes idle: "\<forall>k. \<not> keystates w k"
    and ap: "active_piece w = Some p" and g: "grid_ok (currentGrid p)"
    and H: "length (matrix w) + 4 < 2 ^ 32" and x: "- 2 < active_piece_x w"
    and free: "hasCollisionAt w (active_piece_x w - 1) (active_piece_y w) = Some False"
    and timer: "horizontal_timer w \<le> frame_duration env"
  shows "\<exists>w'. handleKeys env (updateKeystate w [\<lparr>ev_type = LEFT, ev_down = True\<rparr>])
            [\<lparr>ev_type = LEFT, ev_down = True\<rparr>] = Some w'
          \<and> active_piece_x w' = active_piece_x w - 1"
proof -
  define w1 where "w1 = before_horizontal env w LEFT"
  define w2 where "w2 = w1\<lparr>horizontal_timer := horizontal_timer w1 - frame_duration env\<rparr>"
  have w1: "keystates w1 LEFT" "\<not> keystates w1 RIGHT" "\<not> keystates w1 DOWN"
    "horizontal_timer w1 = horizontal_timer w"
    using idle by (simp_all add: w1_def before_horizontal_def)
  have w2: "active_piece w2 = Some p" "matrix w2 = matrix w" "active_piece_x w2 = active_piece_x w"
    "active_piece_y w2 = active_piece_y w" "keystates w2 = keystates w1"
    using ap by (simp_all add: w2_def w1_def before_horizontal_def)
  have free2: "hasCollisionAt w2 (active_piece_x w2 - 1) (active_piece_y w2) = Some False"
    using free hasCollisionAt_cong [of w2 w] w2 ap by simp
  from moveLeftNow_moves [OF w2(1) g _ _ free2] H x w2 obtain g' c' where
    mv: "moveLeftNow w2 = Some (w2\<lparr>active_piece_x := active_piece_x w2 - 1,
        ghost_piece_y := g', lock_countdown := c'\<rparr>)" by auto
  define w3 where "w3 = update_das (w2\<lparr>active_piece_x := active_piece_x w2 - 1,
        ghost_piece_y := g', lock_countdown := c'\<rparr>)"
  have hh: "handle_horizontal env w1 = Some w3"
    using handle_horizontal_left [of w1 env] w1 timer mv by (simp add: w2_def w3_def)
  have w3: "active_piece_x w3 = active_piece_x w - 1" "\<not> keystates w3 DOWN"
    using w1 w2 by (simp_all add: w3_def update_das_fields)
  have "handleKeys env (updateKeystate w [\<lparr>ev_type = LEFT, ev_down = True\<rparr>])
            [\<lparr>ev_type = LEFT, ev_down = True\<rparr>]
      = Some (w3\<lparr>softdrop_timer := softdrop_timer w3 - frame_duration env\<rparr>)"
    using handleKeys_single_press [OF idle, of LEFT env] hh handle_softdrop_idle [OF w3(2), of env]
    by (simp add: w1_def)
  then show ?thesis using w3(1) by simp
qed

lemma press_moves_right:
  assumes idle: "\<forall>k. \<not> keystates w k"
    and ap: "active_piece w = Some p" and g: "grid_ok (currentGrid p)"
    and H: "length (matrix w) + 4 < 2 ^ 32" and x: "- 4 \<le> active_piece_x w"
    and free: "hasCollisionAt w (active_piece_x w + 1) (active_piece_y w) = Some False"
    and timer: "horizontal_timer w \<le> frame_duration env"
  shows "\<exists>w'. handleKeys env (updateKeystate w [\<lparr>ev_type = RIGHT, ev_down = True\<rparr>])
            [\<lparr>ev_type = RIGHT, ev_down = True\<rparr>] = Some w'
          \<and> active_piece_x w' = active_piece_x w + 1"
proof -
  define w1 where "w1 = before_horizontal env w RIGHT"
  define w2 where "w2 = w1\<lparr>horizontal_timer := horizontal_timer w1 - frame_duration env\<rparr>"
  have w1: "\<not> keystates w1 LEFT" "keystates w1 RIGHT" "\<not> keystates w1 DOWN"
    "horizontal_timer w1 = horizontal_timer w"
    using idle by (simp_all add: w1_def before_horizontal_def)
  have w2: "active_piece w2 = Some p" "matrix w2 = matrix w" "active_piece_x w2 = active_piece_x w"
    "active_piece_y w2 = active_piece_y w" "keystates w2 = keystates w1"
    using ap by (simp_all add: w2_def w1_def before_horizontal_def)
  have free2: "hasCollisionAt w2 (active_piece_x w2 + 1) (active_piece_y w2) = Some False"
    using free hasCollisionAt_cong [of w2 w] w2 ap by simp
  from moveRightNow_moves [OF w2(1) g _ _ free2] H x w2 obtain g' c' where
    mv: "moveRightNow w2 = Some (w2\<lparr>active_piece_x := active_piece_x w2 + 1,
        ghost_piece_y := g', lock_countdown := c'\<rparr>)" by auto
  define w3 where "w3 = update_das (w2\<lparr>active_piece_x := active_piece_x w2 + 1,
        ghost_piece_y := g', lock_countdown := c'\<rparr>)"
  have hh: "handle_horizontal env w1 = Some w3"
    using handle_horizontal_right [of w1 env] w1 timer mv by (simp add: w2_def w3_def)
  have w3: "active_piece_x w3 = active_piece_x w + 1" "\<not> keystates w3 DOWN"
    using w1 w2 by (simp_all add: w3_def update_das_fields)
  have "handleKeys env (updateKeystate w [\<lparr>ev_type = RIGHT, ev_down = True\<rparr>])
            [\<lparr>ev_type = RIGHT, ev_down = True\<rparr>]
      = Some (w3\<lparr>softdrop_timer := softdrop_timer w3 - frame_duration env\<rparr>)"
    using handleKeys_single_press [OF idle, of RIGHT env] hh handle_softdrop_idle [OF w3(2), of env]
    by (simp add: w1_def)
  then show ?thesis using w3(1) by simp
qed

lemma press_waits:
  assumes idle: "\<forall>k. \<not> keystates w k" and key: "key = LEFT \<or> key = RIGHT"
    and timer: "frame_duration env < horizontal_timer w"
  shows "\<exists>w'. handleKeys env (updateKeystate w [\<lparr>ev_type = key, ev_down = True\<rparr>])
            [\<lparr>ev_type = key, ev_down = True\<rparr>] = Some w'
          \<and> active_piece_x w' = active_piece_x w
          \<and> horizontal_timer w' = horizontal_timer w - frame_duration env"
proof -
  define w1 where "w1 = before_horizontal env w key"
  have w1: "\<not> keystates w1 DOWN" "horizontal_timer w1 = horizontal_timer w"
    "active_piece_x w1 = active_piece_x w"
    using idle key by (auto simp: w1_def before_horizontal_def)
  let ?w2 = "w1\<lparr>horizontal_timer := horizontal_timer w1 - frame_duration env\<rparr>"
  have hh: "handle_horizontal env w1 = Some ?w2"
    using handle_horizontal_waits [of env w1] timer w1 by simp
  have "\<not> keystates ?w2 DOWN" using w1 by simp
  from handle_softdrop_idle [OF this, of env]
  have "handleKeys env (updateKeystate w [\<lparr>ev_type = key, ev_down = True\<rparr>])
            [\<lparr>ev_type = key, ev_down = True\<rparr>]
      = Some (?w2\<lparr>softdrop_timer := softdrop_timer ?w2 - frame_duration env\<rparr>)"
    using handleKeys_single_press [OF idle key, of env] hh by (simp add: w1_def)
  then show ?thesis using w1 by simp
qed

lemma release_resets_DAS:
  assumes "\<not> ev_down e" and "ev_type e = LEFT \<or> ev_type e = RIGHT"
  shows "handle_event env v e =
     Some (v\<lparr>das_timer := horizontal_delay_normal v,
             horizontal_delay_current := horizontal_delay_normal v\<rparr>)"
  using assms by (auto simp: handle_event_def resetDAS_def)

text \<open>Claim C9, as the code has it. In a frame before which no key was held and whose
  only event is the press of LEFT or RIGHT: if the horizontal timer has run out by this
  frame (as it has in a well just constructed, where it is 0) and the neighbouring
  position is free, the piece moves by one column within the frame; if the timer has not
  run out, the piece stays and the timer goes on counting. A release of LEFT or RIGHT
  sets \<^verbatim>\<open>das_timer\<close> and \<^verbatim>\<open>horizontal_delay_current\<close> to \<^verbatim>\<open>horizontal_delay_normal\<close>,
  their values at construction, and changes nothing else: \<^verbatim>\<open>horizontal_timer\<close> keeps
  its value.\<close>

theorem horizontal_press_and_release:
  assumes "\<forall>k. \<not> keystates w k"
  shows "(active_piece w = Some p \<and> grid_ok (currentGrid p) \<and> length (matrix w) + 4 < 2 ^ 32
          \<and> - 2 < active_piece_x w
          \<and> hasCollisionAt w (active_piece_x w - 1) (active_piece_y w) = Some False
          \<and> horizontal_timer w \<le> frame_duration env
        \<longrightarrow> (\<exists>w'. handleKeys env (updateKeystate w [\<lparr>ev_type = LEFT, ev_down = True\<rparr>])
                    [\<lparr>ev_type = LEFT, ev_down = True\<rparr>] = Some w'
                 \<and> active_piece_x w' = active_piece_x w - 1))
     \<and> (active_piece w = Some p \<and> grid_ok (currentGrid p) \<and> length (matrix w) + 4 < 2 ^ 32
          \<and> - 4 \<le> active_piece_x w
          \<and> hasCollisionAt w (active_piece_x w + 1) (active_piece_y w) = Some False
          \<and> horizontal_timer w \<le> frame_duration env
        \<longrightarrow> (\<exists>w'. handleKeys env (updateKeystate w [\<lparr>ev_type = RIGHT, ev_down = True\<rparr>])
                    [\<lparr>ev_type = RIGHT, ev_down = True\<rparr>] = Some w'
                 \<and> active_piece_x w' = active_piece_x w + 1))
     \<and> ((key = LEFT \<or> key = RIGHT) \<and> frame_duration env < horizontal_timer w
        \<longrightarrow> (\<exists>w'. handleKeys env (updateKeystate w [\<lparr>ev_type = key, ev_down = True\<rparr>])
                    [\<lparr>ev_type = key, ev_down = True\<rparr>] = Some w'
                 \<and> active_piece_x w' = active_piece_x w
                 \<and> horizontal_timer w' = horizontal_timer w - frame_duration env))
     \<and> (\<not> ev_down e \<and> (ev_type e = LEFT \<or> ev_type e = RIGHT)
        \<longrightarrow> handle_event env v e =
              Some (v\<lparr>das_timer := horizontal_delay_normal v,
                      horizontal_delay_current := horizontal_delay_normal v\<rparr>))
     \<and> horizontal_timer (Well env rows cols) = 0
     \<and> das_timer (Well env rows cols) = horizontal_delay_normal (Well env rows cols)
     \<and> horizontal_delay_current (Well env rows cols) = horizontal_delay_normal (Well env rows cols)"
  using press_moves_left [OF assms, of p env] press_moves_right [OF assms, of p env]
    press_waits [OF assms, of key env] release_resets_DAS [of e env v]
  by (simp add: Well_def)

theorem horizontal_press_and_release_witness:
  "(\<forall>k. \<not> keystates falling_T k)
   \<and> active_piece falling_T = Some (example_piece Type_T)
   \<and> grid_ok (currentGrid (example_piece Type_T)) \<and> length (matrix falling_T) + 4 < 2 ^ 32
   \<and> - 2 < active_piece_x falling_T
   \<and> hasCollisionAt falling_T (active_piece_x falling_T - 1) (active_piece_y falling_T) = Some False
   \<and> horizontal_timer falling_T \<le> frame_duration example_env
   \<and> (\<exists>w'. handleKeys example_env (updateKeystate falling_T [\<lparr>ev_type = LEFT, ev_down = True\<rparr>])
                    [\<lparr>ev_type = LEFT, ev_down = True\<rparr>] = Some w'
                 \<and> active_piece_x w' = 2)
   \<and> \<not> ev_down \<lparr>ev_type = LEFT, ev_down = False\<rparr>
   \<and> handle_event example_env falling_T \<lparr>ev_type = LEFT, ev_down = False\<rparr> =
        Some (falling_T\<lparr>das_timer := horizontal_delay_normal falling_T,
                horizontal_delay_current := horizontal_delay_normal falling_T\<rparr>)"
proof -
  have h0: "\<forall>k. \<not> keystates falling_T k"
    by (simp add: falling_T_def empty_well_def Well_def)
  have h1: "active_piece falling_T = Some (example_piece Type_T)" by (simp add: falling_T_def)
  have h2: "grid_ok (currentGrid (example_piece Type_T))" by code_simp
  have h3: "length (matrix falling_T) + 4 < 2 ^ 32"
    by (simp add: falling_T_def empty_well_def Well_def)
  have x: "active_piece_x falling_T = 3" by (simp add: falling_T_def)
  have h4: "- 2 < active_piece_x falling_T" by (simp add: x)
  have h5: "hasCollisionAt falling_T (active_piece_x falling_T - 1) (active_piece_y falling_T)
      = Some False" by code_simp
  have h6: "horizontal_timer falling_T \<le> frame_duration example_env" by code_simp
  note t = horizontal_press_and_release [OF h0, of "example_piece Type_T" example_env LEFT
      "\<lparr>ev_type = LEFT, ev_down = False\<rparr>" falling_T 22 10]
  from t h1 h2 h3 h4 h5 h6
  have a: "\<exists>w'. handleKeys example_env (updateKeystate falling_T [\<lparr>ev_type = LEFT, ev_down = True\<rparr>])
                    [\<lparr>ev_type = LEFT, ev_down = True\<rparr>] = Some w'
                 \<and> active_piece_x w' = 2" by (simp add: x)
  from t have b: "handle_event example_env falling_T \<lparr>ev_type = LEFT, ev_down = False\<rparr> =
        Some (falling_T\<lparr>das_timer := horizontal_delay_normal falling_T,
                horizontal_delay_current := horizontal_delay_normal falling_T\<rparr>)" by simp
  from h0 h1 h2 h3 h4 h5 h6 a b show ?thesis by simp
qed

text \<open>Claim C9 as stated fails. The T piece at its spawn position moves on a first press
  of LEFT; the key is released in the next frame, which leaves the horizontal timer at
  13 of its 14 frames; the press in the frame after that does not move the piece, though
  the position to its left is free.\<close>

theorem first_press_counterexample:
  "map_option active_piece_x (run_frames example_env falling_T
       [[\<lparr>ev_type = LEFT, ev_down = True\<rparr>]]) = Some 2
   \<and> map_option (\<lambda>w. (active_piece_x w, horizontal_timer w, keystates w LEFT,
          hasCollisionAt w (active_piece_x w - 1) (active_piece_y w)))
       (run_frames example_env falling_T
         [[\<lparr>ev_type = LEFT, ev_down = True\<rparr>], [\<lparr>ev_type = LEFT, ev_down = False\<rparr>]])
       = Some (2, 13000, False, Some False)
   \<and> map_option (\<lambda>w. (active_piece_x w, horizontal_timer w, keystates w LEFT))
       (run_frames example_env falling_T
         [[\<lparr>ev_type = LEFT, ev_down = True\<rparr>], [\<lparr>ev_type = LEFT, ev_down = False\<rparr>],
          [\<lparr>ev_type = LEFT, ev_down = True\<rparr>]])
       = Some (2, 12000, True)"
  by code_simp

section \<open>Gravity and the skip flag\<close>

lemma input_frame_refl: "input_frame w w"
  by (simp add: input_frame_def)

lemma input_frame_trans: "input_frame w w1 \<Longrightarrow> input_frame w1 w2 \<Longrightarrow> input_frame w w2"
  by (simp add: input_frame_def)

lemma ghost_loop_frame:
  assumes "ghost_loop w = Some w'"
  shows "input_frame w w'"
proof (rule ghost_loop.raw_induct [OF _ assms])
  fix f w wa
  assume IH: "\<And>x y. f x = Some y \<Longrightarrow> input_frame x y"
    and eq: "(if u32 (int (ghost_piece_y w) + 1) < length (matrix w)
      then hasCollisionAt w (active_piece_x w) (u32 (int (ghost_piece_y w) + 1)) \<bind>
           (\<lambda>collides. if \<not> collides
              then f (w\<lparr>ghost_piece_y := u32 (int (ghost_piece_y w) + 1)\<rparr>) else Some w)
      else Some w) = Some wa"
  show "input_frame w wa"
  proof (cases "u32 (int (ghost_piece_y w) + 1) < length (matrix w)")
    case False
    with eq show ?thesis by (simp add: input_frame_refl)
  next
    case True
    with eq obtain c where c: "hasCollisionAt w (active_piece_x w)
        (u32 (int (ghost_piece_y w) + 1)) = Some c"
      and r: "(if \<not> c then f (w\<lparr>ghost_piece_y := u32 (int (ghost_piece_y w) + 1)\<rparr>)
          else Some w) = Some wa"
      by (auto split: Option.bind_splits)
    show ?thesis
    proof (cases c)
      case True
      with r show ?thesis by (simp add: input_frame_refl)
    next
      case False
      with r have "input_frame (w\<lparr>ghost_piece_y := u32 (int (ghost_piece_y w) + 1)\<rparr>) wa"
        by (simp add: IH)
      then show ?thesis by (simp add: input_frame_def)
    qed
  qed
qed

lemma calculateGhostOffset_frame:
  "calculateGhostOffset w = Some w' \<Longrightarrow> input_frame w w'"
  by (auto simp: calculateGhostOffset_def input_frame_def split: if_splits
      dest!: ghost_loop_frame)

lemma moveLeftNow_frame: "moveLeftNow w = Some w' \<Longrightarrow> input_frame w w'"
  by (auto simp: moveLeftNow_def input_frame_def split: if_splits Option.bind_splits
      dest!: calculateGhostOffset_frame)

lemma moveRightNow_frame: "moveRightNow w = Some w' \<Longrightarrow> input_frame w w'"
  by (auto simp: moveRightNow_def input_frame_def split: if_splits Option.bind_splits
      dest!: calculateGhostOffset_frame)

lemma kick_floor_frame: "kick_floor w p floor = Some (Some w') \<Longrightarrow> input_frame w w'"
  by (auto simp: kick_floor_def kick_to_def input_frame_def Let_def
      split: if_splits Option.bind_splits)

lemma wallkick_floors_frame: "wallkick_floors w p floor = Some (b, w') \<Longrightarrow> input_frame w w'"
proof (induction w p floor rule: wallkick_floors.induct)
  case (1 w p floor)
  show ?case
  proof (cases "floor < (if ptype p = Type_I then 3 else 2)")
    case False
    with "1.prems" show ?thesis
      by (subst (asm) wallkick_floors.simps) (simp add: input_frame_refl)
  next
    case True
    show ?thesis
    proof (cases "kick_floor w p floor")
      case None
      with True "1.prems" show ?thesis by (subst (asm) wallkick_floors.simps) simp
    next
      case (Some r)
      show ?thesis
      proof (cases r)
        case None
        with Some True "1.prems" have "wallkick_floors w p (floor + 1) = Some (b, w')"
          by (subst (asm) wallkick_floors.simps) simp
        from "1.IH" [OF True \<open>kick_floor w p floor = Some r\<close> None this]
        show ?thesis .
      next
        case (Some w2)
        with \<open>kick_floor w p floor = Some r\<close> True "1.prems" have "w' = w2"
          by (subst (asm) wallkick_floors.simps) simp
        with Some \<open>kick_floor w p floor = Some r\<close> show ?thesis
          by (simp add: kick_floor_frame)
      qed
    qed
  qed
qed

lemma rotate_now_frame: "rotate_now rot unrot w = Some w' \<Longrightarrow> input_frame w w'"
  by (auto simp: rotate_now_def placeByWallKick_def input_frame_def Let_def
      split: if_splits option.splits Option.bind_splits
      dest!: calculateGhostOffset_frame wallkick_floors_frame)

lemma handle_event_skip:
  assumes "handle_event env w e = Some w'"
  shows "skipping_press e \<Longrightarrow> skip_gravity w'"
    and "skip_gravity w \<Longrightarrow> skip_gravity w'"
    and "\<not> skipping_press e \<Longrightarrow> input_frame w w'"
  using assms
  by (auto simp: handle_event_def skipping_press_def input_frame_def resetDAS_def notify_def
      split: if_splits Option.bind_splits)

lemma handle_events_skip:
  "handle_events env w events = Some w' \<Longrightarrow>
     (if \<exists>e\<in>set events. skipping_press e then skip_gravity w'
      else input_frame w w')"
proof (induction events arbitrary: w)
  case Nil
  then show ?case by (simp add: input_frame_refl)
next
  case (Cons e events)
  from Cons.prems obtain w1 where a: "handle_event env w e = Some w1"
    and b: "handle_events env w1 events = Some w'"
    by (auto split: option.splits)
  have keep: "\<And>v v'. handle_events env v events = Some v' \<Longrightarrow> skip_gravity v \<Longrightarrow> skip_gravity v'"
  proof -
    fix v v' show "handle_events env v events = Some v' \<Longrightarrow> skip_gravity v \<Longrightarrow> skip_gravity v'"
    proof (induction events arbitrary: v)
      case Nil
      then show ?case by simp
    next
      case (Cons e' es)
      then obtain v1 where "handle_event env v e' = Some v1" "handle_events env v1 es = Some v'"
        by (auto split: option.splits)
      with Cons.IH [of v1] handle_event_skip(2) [of env v e' v1] Cons.prems(2)
      show ?case by simp
    qed
  qed
  show ?case
  proof (cases "skipping_press e")
    case True
    with handle_event_skip(1) [OF a] keep [OF b] show ?thesis by simp
  next
    case False
    from handle_event_skip(3) [OF a False] have f: "input_frame w w1" .
    show ?thesis
    proof (cases "\<exists>e\<in>set events. skipping_press e")
      case True
      with Cons.IH [OF b] show ?thesis by simp
    next
      case no: False
      with Cons.IH [OF b] have "input_frame w1 w'" by simp
      with f have "input_frame w w'" by (rule input_frame_trans)
      with False no show ?thesis by simp
    qed
  qed
qed

lemma handle_rotation_frame: "handle_rotation env w = Some w' \<Longrightarrow> input_frame w w'"
  by (auto simp: handle_rotation_def rotateCWNow_def rotateCCWNow_def Let_def input_frame_def
      split: if_splits Option.bind_splits dest!: rotate_now_frame)

lemma handle_horizontal_frame: "handle_horizontal env w = Some w' \<Longrightarrow> input_frame w w'"
  by (auto simp: handle_horizontal_def update_das_def Let_def input_frame_def
      split: if_splits Option.bind_splits dest!: moveLeftNow_frame moveRightNow_frame)

lemma handle_softdrop_skip:
  "handle_softdrop env w = Some w' \<Longrightarrow>
     skip_gravity w' = (skip_gravity w
        \<or> (keystates w DOWN \<and> softdrop_timer w \<le> frame_duration env))"
  by (auto simp: handle_softdrop_def Let_def split: if_splits Option.bind_splits)

lemma handleKeys_skip:
  assumes "handleKeys env w events = Some w1"
  shows "skip_gravity w1 \<longleftrightarrow>
     (keystates w DOWN \<and> previous_keystates w DOWN)
     \<or> (\<exists>e\<in>set events. skipping_press e)
     \<or> (keystates w DOWN \<and> softdrop_timer w \<le> frame_duration env)"
proof -
  let ?w0 = "w\<lparr>skip_gravity := (keystates w DOWN \<and> previous_keystates w DOWN)\<rparr>"
  from assms obtain wa wb wc where
    a: "handle_events env ?w0 events = Some wa"
    and b: "handle_rotation env wa = Some wb"
    and c: "handle_horizontal env wb = Some wc"
    and d: "handle_softdrop env wc = Some w1"
    by (auto simp: handleKeys_def split: Option.bind_splits)
  from handle_rotation_frame [OF b] handle_horizontal_frame [OF c]
  have f: "input_frame wa wc" by (rule input_frame_trans)
  show ?thesis
  proof (cases "\<exists>e\<in>set events. skipping_press e")
    case True
    with handle_events_skip [OF a] have "skip_gravity wa" by simp
    with f have "skip_gravity wc" by (simp add: input_frame_def)
    with handle_softdrop_skip [OF d] True show ?thesis by simp
  next
    case False
    with handle_events_skip [OF a] have "input_frame ?w0 wa" by simp
    from this f have "input_frame ?w0 wc" by (rule input_frame_trans)
    then have "skip_gravity wc = (keystates w DOWN \<and> previous_keystates w DOWN)"
      "keystates wc = keystates w" "softdrop_timer wc = softdrop_timer w"
      by (simp_all add: input_frame_def)
    with handle_softdrop_skip [OF d] False show ?thesis by simp
  qed
qed

lemma gravity_loop_skip:
  assumes "skip_gravity w" and "0 < gravity_delay w"
  shows "\<exists>t. gravity_loop env w = Some (w\<lparr>gravity_timer := t\<rparr>)"
  using assms
proof (induction "nat (gravity_timer w)" arbitrary: w rule: less_induct)
  case less
  show ?case
  proof (cases "gravity_delay w \<le> gravity_timer w")
    case False
    then have "gravity_loop env w = Some (w\<lparr>gravity_timer := gravity_timer w\<rparr>)"
      by (subst gravity_loop.simps) simp
    then show ?thesis by blast
  next
    case True
    let ?w1 = "w\<lparr>gravity_timer := gravity_timer w - gravity_delay w\<rparr>"
    have "nat (gravity_timer ?w1) < nat (gravity_timer w)" using True less.prems(2) by simp
    from less.hyps [OF this] less.prems obtain t where
      "gravity_loop env ?w1 = Some (?w1\<lparr>gravity_timer := t\<rparr>)" by auto
    with True less.prems(1) have "gravity_loop env w = Some (w\<lparr>gravity_timer := t\<rparr>)"
      by (subst gravity_loop.simps) simp
    then show ?thesis by blast
  qed
qed

lemma updateGravity_skip:
  assumes "skip_gravity w" and "0 < gravity_delay w"
  shows "\<exists>t. updateGravity env w = Some (w\<lparr>gravity_timer := t\<rparr>)"
  using gravity_loop_skip [of "w\<lparr>gravity_timer := gravity_timer w + frame_duration env\<rparr>" env]
    assms
  by (simp add: updateGravity_def)

lemma updateGravity_step:
  assumes "\<not> skip_gravity w" and "gravity_delay w \<le> gravity_timer w + frame_duration env"
  shows "updateGravity env w =
     applyGravity env (w\<lparr>gravity_timer := gravity_timer w + frame_duration env - gravity_delay w\<rparr>)
       \<bind> gravity_loop env"
  using assms unfolding updateGravity_def
  by (subst gravity_loop.simps) simp

lemma handleKeys_held_down:
  assumes "keystates w A = keystates w B" and "keystates w LEFT = keystates w RIGHT"
  shows "handleKeys env w [] =
     (let wt = w\<lparr>skip_gravity := (keystates w DOWN \<and> previous_keystates w DOWN),
                  rotation_timer := rotation_timer w - frame_duration env,
                  horizontal_timer := horizontal_timer w - frame_duration env,
                  softdrop_timer := softdrop_timer w - frame_duration env\<rparr>
      in if keystates w DOWN \<and> softdrop_timer w \<le> frame_duration env
         then moveDownNow env wt
                \<bind> (\<lambda>w2. Some (w2\<lparr>skip_gravity := True, softdrop_timer := softdrop_delay w2\<rparr>))
         else Some wt)"
  using assms
  by (simp add: handleKeys_def handle_rotation_def handle_horizontal_def handle_softdrop_def
      Let_def)

lemma handleKeys_press_down:
  assumes "keystates w A = keystates w B" and "keystates w LEFT = keystates w RIGHT"
    and "keystates w DOWN"
  shows "handleKeys env w [\<lparr>ev_type = DOWN, ev_down = True\<rparr>] = handleKeys env w []"
  using assms
  by (simp add: handleKeys_def handle_event_def)

lemma moveDownNow_falls:
  assumes "active_piece w \<noteq> None" and "length (matrix w) < 2 ^ 32"
    and "hasCollisionAt w (active_piece_x w) (active_piece_y w + 1) = Some False"
  shows "moveDownNow env w = Some (w\<lparr>active_piece_y := active_piece_y w + 1\<rparr>)"
proof -
  from hasCollisionAt_Some [OF assms(3)] have "active_piece_y w + 1 < length (matrix w)" by simp
  with assms(2) have "u32 (int (active_piece_y w) + 1) = active_piece_y w + 1"
    using u32_plus [of "active_piece_y w" 1] by simp
  with assms \<open>active_piece_y w + 1 < length (matrix w)\<close> show ?thesis
    by (auto simp: moveDownNow_def isOnGround_def)
qed

lemma updateLockDelay_falls:
  assumes "active_piece w \<noteq> None" and "length (matrix w) < 2 ^ 32"
    and "hasCollisionAt w (active_piece_x w) (active_piece_y w + 1) = Some False"
  shows "updateLockDelay env w = Some (w\<lparr>lock_countdown := cd_stop (lock_countdown w)\<rparr>)"
proof -
  from hasCollisionAt_Some [OF assms(3)] have "active_piece_y w + 1 < length (matrix w)" by simp
  with assms(2) have "u32 (int (active_piece_y w) + 1) = active_piece_y w + 1"
    using u32_plus [of "active_piece_y w" 1] by simp
  with assms \<open>active_piece_y w + 1 < length (matrix w)\<close> show ?thesis
    by (auto simp: updateLockDelay_def isOnGround_def cd_update_def cd_stop_def Let_def)
qed

lemma update_held_down:
  assumes ng: "\<not> gameover w" and np: "pending_cleared_rows w = []"
    and ap: "active_piece w \<noteq> None"
    and ab: "keystates w A = keystates w B"
    and lr: "keystates w LEFT = keystates w RIGHT"
    and gd: "0 < gravity_delay w" and len: "length (matrix w) < 2 ^ 32"
    and ev: "events = [] \<and> keystates w DOWN
        \<or> events = [\<lparr>ev_type = DOWN, ev_down = True\<rparr>] \<and> softdrop_timer w \<le> frame_duration env"
    and free: "hasCollisionAt w (active_piece_x w)
        (active_piece_y w + (if softdrop_timer w \<le> frame_duration env then 2 else 1)) = Some False"
    and free1: "hasCollisionAt w (active_piece_x w) (active_piece_y w + 1) = Some False"
  shows "\<exists>w'. update env w events = Some w' \<and> held_frame w w'
     \<and> keystates w' = (keystates w)(DOWN := True)
     \<and> active_piece_y w' = (if softdrop_timer w \<le> frame_duration env
          then active_piece_y w + 1 else active_piece_y w)
     \<and> softdrop_timer w' = (if softdrop_timer w \<le> frame_duration env
          then softdrop_delay w else softdrop_timer w - frame_duration env)"
proof -
  define wk where "wk = updateKeystate (updateAnimations env w) events"
  have ks: "keystates wk = (keystates w)(DOWN := True)"
    using ev by (auto simp: wk_def updateKeystate_def updateAnimations_def fun_upd_idem)
  have wk: "previous_keystates wk = keystates w"
    "active_piece wk = active_piece w" "matrix wk = matrix w"
    "active_piece_x wk = active_piece_x w" "active_piece_y wk = active_piece_y w"
    "softdrop_timer wk = softdrop_timer w" "held_frame w wk"
    by (simp_all add: wk_def updateKeystate_def updateAnimations_def held_frame_def)
  have kk: "keystates wk DOWN" "keystates wk A = keystates wk B"
    "keystates wk LEFT = keystates wk RIGHT"
    using ab lr by (simp_all add: ks)
  have hk0: "handleKeys env wk events = handleKeys env wk []"
    using ev handleKeys_press_down [OF kk(2,3,1)] by auto
  let ?wt = "wk\<lparr>skip_gravity := (keystates wk DOWN \<and> previous_keystates wk DOWN),
                  rotation_timer := rotation_timer wk - frame_duration env,
                  horizontal_timer := horizontal_timer wk - frame_duration env,
                  softdrop_timer := softdrop_timer wk - frame_duration env\<rparr>"
  have "\<exists>w1. handleKeys env wk [] = Some w1 \<and> held_frame w w1 \<and> skip_gravity w1
     \<and> keystates w1 = (keystates w)(DOWN := True)
     \<and> active_piece_y w1 = (if softdrop_timer w \<le> frame_duration env
          then active_piece_y w + 1 else active_piece_y w)
     \<and> softdrop_timer w1 = (if softdrop_timer w \<le> frame_duration env
          then softdrop_delay w else softdrop_timer w - frame_duration env)"
  proof (cases "softdrop_timer w \<le> frame_duration env")
    case False
    with ev have "keystates w DOWN" by auto
    with False have "handleKeys env wk [] = Some ?wt"
      using wk kk by (simp add: handleKeys_held_down [OF kk(2,3)] Let_def)
    moreover have "held_frame w ?wt" "skip_gravity ?wt" "keystates ?wt = (keystates w)(DOWN := True)"
      "active_piece_y ?wt = active_piece_y w"
      "softdrop_timer ?wt = softdrop_timer w - frame_duration env"
      using wk ks \<open>keystates w DOWN\<close> by (simp_all add: held_frame_def)
    ultimately show ?thesis using False by simp
  next
    case True
    have c: "hasCollisionAt ?wt (active_piece_x ?wt) (active_piece_y ?wt + 1) = Some False"
      using free1 hasCollisionAt_cong [of ?wt w] wk by simp
    have md: "moveDownNow env ?wt = Some (?wt\<lparr>active_piece_y := active_piece_y ?wt + 1\<rparr>)"
      by (rule moveDownNow_falls) (use ap len wk c in simp_all)
    let ?w1 = "?wt\<lparr>active_piece_y := active_piece_y ?wt + 1, skip_gravity := True,
        softdrop_timer := softdrop_delay ?wt\<rparr>"
    have "handleKeys env wk [] = Some ?w1"
      using True wk kk md by (simp add: handleKeys_held_down [OF kk(2,3)] Let_def)
    moreover have "held_frame w ?w1" "skip_gravity ?w1" "keystates ?w1 = (keystates w)(DOWN := True)"
      "active_piece_y ?w1 = active_piece_y w + 1"
      "softdrop_timer ?w1 = softdrop_delay w"
      using wk ks by (simp_all add: held_frame_def)
    ultimately show ?thesis using True by simp
  qed
  then obtain w1 where hk: "handleKeys env wk events = Some w1" and h1: "held_frame w w1"
    and sk: "skip_gravity w1" and k1: "keystates w1 = (keystates w)(DOWN := True)"
    and y1: "active_piece_y w1 = (if softdrop_timer w \<le> frame_duration env
          then active_piece_y w + 1 else active_piece_y w)"
    and t1: "softdrop_timer w1 = (if softdrop_timer w \<le> frame_duration env
          then softdrop_delay w else softdrop_timer w - frame_duration env)"
    unfolding hk0 by blast
  from h1 gd have "0 < gravity_delay w1" by (simp add: held_frame_def)
  from updateGravity_skip [OF sk this, of env] obtain t where
    ug: "updateGravity env w1 = Some (w1\<lparr>gravity_timer := t\<rparr>)" by blast
  let ?w2 = "w1\<lparr>gravity_timer := t\<rparr>"
  have c2: "hasCollisionAt ?w2 (active_piece_x ?w2) (active_piece_y ?w2 + 1) = Some False"
  proof -
    have "hasCollisionAt ?w2 (active_piece_x ?w2) (active_piece_y ?w2 + 1)
        = hasCollisionAt w (active_piece_x w) (active_piece_y ?w2 + 1)"
      using hasCollisionAt_cong [of ?w2 w] h1 by (simp add: held_frame_def)
    also have "\<dots> = Some False" using free free1 y1 by (simp split: if_splits)
    finally show ?thesis .
  qed
  have ul: "updateLockDelay env ?w2 = Some (?w2\<lparr>lock_countdown := cd_stop (lock_countdown ?w2)\<rparr>)"
    by (rule updateLockDelay_falls) (use ap len h1 c2 in \<open>simp_all add: held_frame_def\<close>)
  have "update env w events = Some (?w2\<lparr>lock_countdown := cd_stop (lock_countdown ?w2)\<rparr>)"
    using ng np ap h1 hk [unfolded wk_def] ug ul
    by (auto simp: update_def Let_def updateAnimations_def held_frame_def)
  then show ?thesis using h1 y1 t1 k1 by (simp add: held_frame_def)
qed

lemma run_frames_held_down:
  assumes "\<not> gameover w" and "pending_cleared_rows w = []" and "active_piece w \<noteq> None"
    and "keystates w DOWN" and "keystates w A = keystates w B"
    and "keystates w LEFT = keystates w RIGHT"
    and "0 < gravity_delay w" and "length (matrix w) < 2 ^ 32"
    and "\<forall>i. 1 \<le> i \<and> i \<le> softdrop_steps (frame_duration env) (softdrop_delay w)
              (softdrop_timer w) k + 1
          \<longrightarrow> hasCollisionAt w (active_piece_x w) (active_piece_y w + i) = Some False"
  shows "\<exists>w'. run_frames env w (replicate k []) = Some w' \<and> held_frame w w'
     \<and> keystates w' = keystates w
     \<and> active_piece_y w' = active_piece_y w
         + softdrop_steps (frame_duration env) (softdrop_delay w) (softdrop_timer w) k"
  using assms
proof (induction k arbitrary: w)
  case 0
  then show ?case by (simp add: held_frame_def)
next
  case (Suc k)
  let ?fd = "frame_duration env" and ?D = "softdrop_delay w" and ?t = "softdrop_timer w"
  let ?d = "if ?t \<le> ?fd then 1 else (0::nat)"
  let ?t1 = "if ?t \<le> ?fd then ?D else ?t - ?fd"
  have st: "softdrop_steps ?fd ?D ?t (Suc k) = ?d + softdrop_steps ?fd ?D ?t1 k" by simp
  note free = Suc.prems(9) [unfolded st]
  have f1: "hasCollisionAt w (active_piece_x w) (active_piece_y w + 1) = Some False"
    using free [rule_format, of 1] by simp
  have f2: "hasCollisionAt w (active_piece_x w)
        (active_piece_y w + (if ?t \<le> ?fd then 2 else 1)) = Some False"
    using free [rule_format, of "if ?t \<le> ?fd then 2 else 1"] by simp
  from update_held_down [where events = "[]" and env = env, OF Suc.prems(1,2,3,5,6,7,8) _ f2 f1]
    Suc.prems(4)
  obtain w1 where u: "update env w [] = Some w1" and h: "held_frame w w1"
    and k1: "keystates w1 = (keystates w)(DOWN := True)"
    and y1: "active_piece_y w1 = active_piece_y w + ?d"
    and t1: "softdrop_timer w1 = ?t1"
    by auto
  from k1 Suc.prems(4) have k1': "keystates w1 = keystates w" by (simp add: fun_upd_idem)
  have free': "\<forall>i. 1 \<le> i \<and> i \<le> softdrop_steps ?fd (softdrop_delay w1) (softdrop_timer w1) k + 1
      \<longrightarrow> hasCollisionAt w1 (active_piece_x w1) (active_piece_y w1 + i) = Some False"
  proof (intro allI impI)
    fix i assume i: "1 \<le> i \<and> i \<le> softdrop_steps ?fd (softdrop_delay w1) (softdrop_timer w1) k + 1"
    have "hasCollisionAt w1 (active_piece_x w1) (active_piece_y w1 + i)
        = hasCollisionAt w (active_piece_x w) (active_piece_y w + (?d + i))"
      using hasCollisionAt_cong [of w1 w] h y1 by (simp add: held_frame_def add.assoc)
    also have "\<dots> = Some False"
      using free [rule_format, of "?d + i"] i h t1 by (simp add: held_frame_def)
    finally show "hasCollisionAt w1 (active_piece_x w1) (active_piece_y w1 + i) = Some False" .
  qed
  have "\<exists>w'. run_frames env w1 (replicate k []) = Some w' \<and> held_frame w1 w'
     \<and> keystates w' = keystates w1
     \<and> active_piece_y w' = active_piece_y w1
         + softdrop_steps ?fd (softdrop_delay w1) (softdrop_timer w1) k"
    by (rule Suc.IH) (use Suc.prems h k1' free' in \<open>simp_all add: held_frame_def\<close>)
  then obtain w' where r: "run_frames env w1 (replicate k []) = Some w'"
    and h': "held_frame w1 w'" and k': "keystates w' = keystates w1"
    and y': "active_piece_y w' = active_piece_y w1
         + softdrop_steps ?fd (softdrop_delay w1) (softdrop_timer w1) k"
    by blast
  have "run_frames env w (replicate (Suc k) []) = Some w'" using u r by simp
  moreover have "held_frame w w'" using h h' by (simp add: held_frame_def)
  moreover have "active_piece_y w' = active_piece_y w + softdrop_steps ?fd ?D ?t (Suc k)"
    using y' y1 t1 h unfolding st by (simp add: held_frame_def)
  ultimately show ?case using k' k1' by simp
qed

lemma softdrop_steps_wait:
  "0 \<le> fd \<Longrightarrow> int j * fd < t \<Longrightarrow>
     softdrop_steps fd D t (j + k) = softdrop_steps fd D (t - int j * fd) k"
proof (induction j arbitrary: t)
  case 0
  then show ?case by simp
next
  case (Suc j)
  have "0 \<le> int j * fd" using Suc.prems(1) by simp
  with Suc.prems(2) have a: "fd < t" "int j * fd < t - fd" by (simp_all add: algebra_simps)
  from Suc.IH [OF Suc.prems(1) a(2)] a(1) show ?case by (simp add: algebra_simps)
qed

lemma softdrop_steps_period:
  assumes "0 < p" and "(int p - 1) * fd < D" and "D \<le> int p * fd"
  shows "softdrop_steps fd D D k = k div p"
proof -
  have "(int p - 1) * fd < int p * fd" using assms(2,3) by simp
  then have fd: "0 < fd" by (simp add: algebra_simps)
  show ?thesis
  proof (induction k rule: less_induct)
    case (less k)
    show ?case
    proof (cases "k < p")
      case True
      then have "int k \<le> int p - 1" by simp
      then have "int k * fd \<le> (int p - 1) * fd" using fd by (simp add: mult_right_mono)
      with assms(2) have "int k * fd < D" by simp
      from softdrop_steps_wait [OF _ this, of D 0] fd True show ?thesis by simp
    next
      case False
      define m where "m = k - p"
      have k: "k = (p - 1) + Suc m" using False assms(1) by (simp add: m_def)
      have m: "m = k - p" by (simp add: m_def)
      have w: "int (p - 1) * fd < D" using assms(1,2) by (simp add: of_nat_diff)
      have l: "D - int (p - 1) * fd \<le> fd"
        using assms(1,3) by (simp add: of_nat_diff algebra_simps)
      have "m < k" using k by simp
      from softdrop_steps_wait [OF _ w, of D "Suc m"] fd l less.IH [OF \<open>m < k\<close>]
      have "softdrop_steps fd D D k = Suc (m div p)" unfolding k by simp
      also have "\<dots> = k div p" using False assms(1) m by (simp add: le_div_geq)
      finally show ?thesis .
    qed
  qed
qed

lemma run_frames_press_down:
  assumes ng: "\<not> gameover w" and np: "pending_cleared_rows w = []"
    and ap: "active_piece w \<noteq> None"
    and ab: "keystates w A = keystates w B" and lr: "keystates w LEFT = keystates w RIGHT"
    and gd: "0 < gravity_delay w" and len: "length (matrix w) < 2 ^ 32"
    and t: "softdrop_timer w \<le> frame_duration env"
    and p: "0 < p" "(int p - 1) * frame_duration env < softdrop_delay w"
      "softdrop_delay w \<le> int p * frame_duration env"
    and free: "\<forall>i. 1 \<le> i \<and> i \<le> k div p + 2
          \<longrightarrow> hasCollisionAt w (active_piece_x w) (active_piece_y w + i) = Some False"
  shows "\<exists>w'. run_frames env w ([\<lparr>ev_type = DOWN, ev_down = True\<rparr>] # replicate k []) = Some w'
     \<and> active_piece_y w' = active_piece_y w + 1 + k div p
     \<and> active_piece w' = active_piece w \<and> active_piece_x w' = active_piece_x w
     \<and> matrix w' = matrix w \<and> keystates w' = (keystates w)(DOWN := True)"
proof -
  let ?press = "\<lparr>ev_type = DOWN, ev_down = True\<rparr>"
  have f1: "hasCollisionAt w (active_piece_x w) (active_piece_y w + 1) = Some False"
    using free [rule_format, of 1] by simp
  have f2: "hasCollisionAt w (active_piece_x w)
        (active_piece_y w + (if softdrop_timer w \<le> frame_duration env then 2 else 1)) = Some False"
    using free [rule_format, of 2] t by simp
  from update_held_down [where events = "[?press]" and env = env, OF ng np ap ab lr gd len _ f2 f1] t
  obtain w1 where u: "update env w [?press] = Some w1" and h: "held_frame w w1"
    and k1: "keystates w1 = (keystates w)(DOWN := True)"
    and y1: "active_piece_y w1 = active_piece_y w + 1"
    and t1: "softdrop_timer w1 = softdrop_delay w"
    by auto
  have D: "softdrop_delay w1 = softdrop_delay w" using h by (simp add: held_frame_def)
  have st: "softdrop_steps (frame_duration env) (softdrop_delay w1) (softdrop_timer w1) k
      = k div p"
    unfolding t1 D by (rule softdrop_steps_period [OF p])
  have free': "\<forall>i. 1 \<le> i \<and> i \<le> softdrop_steps (frame_duration env) (softdrop_delay w1)
              (softdrop_timer w1) k + 1
      \<longrightarrow> hasCollisionAt w1 (active_piece_x w1) (active_piece_y w1 + i) = Some False"
  proof (intro allI impI)
    fix i assume i: "1 \<le> i \<and> i \<le> softdrop_steps (frame_duration env) (softdrop_delay w1)
              (softdrop_timer w1) k + 1"
    have "hasCollisionAt w1 (active_piece_x w1) (active_piece_y w1 + i)
        = hasCollisionAt w (active_piece_x w) (active_piece_y w + (1 + i))"
      using hasCollisionAt_cong [of w1 w] h y1 by (simp add: held_frame_def add.assoc)
    also have "\<dots> = Some False"
      using free [rule_format, of "1 + i"] i unfolding st by simp
    finally show "hasCollisionAt w1 (active_piece_x w1) (active_piece_y w1 + i) = Some False" .
  qed
  have "\<exists>w'. run_frames env w1 (replicate k []) = Some w' \<and> held_frame w1 w'
     \<and> keystates w' = keystates w1
     \<and> active_piece_y w' = active_piece_y w1
         + softdrop_steps (frame_duration env) (softdrop_delay w1) (softdrop_timer w1) k"
    by (rule run_frames_held_down)
      (use ng np ap ab lr gd len h k1 free' in \<open>simp_all add: held_frame_def\<close>)
  then obtain w' where r: "run_frames env w1 (replicate k []) = Some w'"
    and h': "held_frame w1 w'" and k': "keystates w' = keystates w1"
    and y': "active_piece_y w' = active_piece_y w1 + k div p"
    unfolding st by blast
  have "run_frames env w ([?press] # replicate k []) = Some w'" using u r by simp
  then show ?thesis using h h' k' k1 y' y1 by (simp add: held_frame_def)
qed

text \<open>Claim C4, as the code has it. After \<open>handleKeys\<close>, \<open>skip_gravity\<close> is set exactly
  when DOWN is held in this frame and was held in the frame before, or a press of UP,
  GAME_HARDDROP or GAME_HOLD is among the events of the frame, or DOWN is held and the
  soft drop timer has run out in this frame. With \<open>skip_gravity\<close> set, \<open>updateGravity\<close>
  returns and changes the gravity timer only, so no gravity step is applied; with
  \<open>skip_gravity\<close> clear and a full interval elapsed, it applies a gravity step.

  In a frame without events, with neither a rotation nor a horizontal move asked for,
  \<open>handleKeys\<close> takes the frame duration off its three timers and, if DOWN is held and
  the soft drop timer has run out, calls \<open>moveDownNow\<close> once and restarts the soft drop
  timer at the soft drop delay; the soft drop delay is a twentieth of the gravity
  interval, from the constructor and from \<open>setGravity\<close>.

  So holding DOWN does not take the piece down a row per soft drop delay. Let the soft
  drop delay take \<open>p\<close> frames, that is, more than \<open>p - 1\<close> and at most \<open>p\<close> frame
  durations. If DOWN is pressed in a frame in which the soft drop timer has run out, and
  then held for \<open>k\<close> more frames, over a piece with \<open>k div p + 2\<close> free rows beneath it in
  a game in play, then the piece is \<open>1 + k div p\<close> rows further down: a row in the frame
  of the press and a row every \<open>p\<close> frames after it, never more than a row a frame, and
  none of them from gravity.\<close>

theorem gravity_skipped_iff:
  "(handleKeys env w events = Some w1 \<longrightarrow>
      (skip_gravity w1 \<longleftrightarrow>
           (keystates w DOWN \<and> previous_keystates w DOWN)
           \<or> (\<exists>e\<in>set events. skipping_press e)
           \<or> (keystates w DOWN \<and> softdrop_timer w \<le> frame_duration env))
       \<and> (skip_gravity w1 \<and> 0 < gravity_delay w1
            \<longrightarrow> (\<exists>t. updateGravity env w1 = Some (w1\<lparr>gravity_timer := t\<rparr>)))
       \<and> (\<not> skip_gravity w1 \<and> gravity_delay w1 \<le> gravity_timer w1 + frame_duration env
            \<longrightarrow> updateGravity env w1 =
                 applyGravity env
                   (w1\<lparr>gravity_timer := gravity_timer w1 + frame_duration env - gravity_delay w1\<rparr>)
                   \<bind> gravity_loop env))
   \<and> (keystates w A = keystates w B \<and> keystates w LEFT = keystates w RIGHT \<longrightarrow>
        handleKeys env w [] =
          (let wt = w\<lparr>skip_gravity := (keystates w DOWN \<and> previous_keystates w DOWN),
                       rotation_timer := rotation_timer w - frame_duration env,
                       horizontal_timer := horizontal_timer w - frame_duration env,
                       softdrop_timer := softdrop_timer w - frame_duration env\<rparr>
           in if keystates w DOWN \<and> softdrop_timer w \<le> frame_duration env
              then moveDownNow env wt
                     \<bind> (\<lambda>w2. Some (w2\<lparr>skip_gravity := True,
                                           softdrop_timer := softdrop_delay w2\<rparr>))
              else Some wt))
   \<and> softdrop_delay (Well env rows cols) = gravity_delay (Well env rows cols) div 20
   \<and> softdrop_delay (setGravity env w duration) = gravity_delay (setGravity env w duration) div 20
   \<and> (\<not> gameover v \<and> pending_cleared_rows v = [] \<and> active_piece v \<noteq> None
        \<and> keystates v A = keystates v B \<and> keystates v LEFT = keystates v RIGHT
        \<and> 0 < gravity_delay v \<and> length (matrix v) < 2 ^ 32
        \<and> softdrop_timer v \<le> frame_duration env
        \<and> 0 < p \<and> (int p - 1) * frame_duration env < softdrop_delay v
        \<and> softdrop_delay v \<le> int p * frame_duration env
        \<and> (\<forall>i. 1 \<le> i \<and> i \<le> k div p + 2
              \<longrightarrow> hasCollisionAt v (active_piece_x v) (active_piece_y v + i) = Some False)
      \<longrightarrow> (\<exists>v'. run_frames env v ([\<lparr>ev_type = DOWN, ev_down = True\<rparr>] # replicate k []) = Some v'
             \<and> active_piece_y v' = active_piece_y v + 1 + k div p
             \<and> active_piece v' = active_piece v \<and> active_piece_x v' = active_piece_x v
             \<and> matrix v' = matrix v \<and> keystates v' = (keystates v)(DOWN := True)))"
proof -
  have a: "handleKeys env w events = Some w1 \<longrightarrow>
      (skip_gravity w1 \<longleftrightarrow>
           (keystates w DOWN \<and> previous_keystates w DOWN)
           \<or> (\<exists>e\<in>set events. skipping_press e)
           \<or> (keystates w DOWN \<and> softdrop_timer w \<le> frame_duration env))
       \<and> (skip_gravity w1 \<and> 0 < gravity_delay w1
            \<longrightarrow> (\<exists>t. updateGravity env w1 = Some (w1\<lparr>gravity_timer := t\<rparr>)))
       \<and> (\<not> skip_gravity w1 \<and> gravity_delay w1 \<le> gravity_timer w1 + frame_duration env
            \<longrightarrow> updateGravity env w1 =
                 applyGravity env
                   (w1\<lparr>gravity_timer := gravity_timer w1 + frame_duration env - gravity_delay w1\<rparr>)
                   \<bind> gravity_loop env)"
    using handleKeys_skip [of env w events w1] updateGravity_skip [of w1 env]
      updateGravity_step [of w1 env]
    by blast
  have b: "keystates w A = keystates w B \<and> keystates w LEFT = keystates w RIGHT \<longrightarrow>
        handleKeys env w [] =
          (let wt = w\<lparr>skip_gravity := (keystates w DOWN \<and> previous_keystates w DOWN),
                       rotation_timer := rotation_timer w - frame_duration env,
                       horizontal_timer := horizontal_timer w - frame_duration env,
                       softdrop_timer := softdrop_timer w - frame_duration env\<rparr>
           in if keystates w DOWN \<and> softdrop_timer w \<le> frame_duration env
              then moveDownNow env wt
                     \<bind> (\<lambda>w2. Some (w2\<lparr>skip_gravity := True,
                                           softdrop_timer := softdrop_delay w2\<rparr>))
              else Some wt)"
    using handleKeys_held_down [of w env] by blast
  have c: "softdrop_delay (Well env rows cols) = gravity_delay (Well env rows cols) div 20"
    by (simp add: Well_def)
  have d: "softdrop_delay (setGravity env w duration)
      = gravity_delay (setGravity env w duration) div 20"
    by (simp add: setGravity_def)
  have e: "\<not> gameover v \<and> pending_cleared_rows v = [] \<and> active_piece v \<noteq> None
        \<and> keystates v A = keystates v B \<and> keystates v LEFT = keystates v RIGHT
        \<and> 0 < gravity_delay v \<and> length (matrix v) < 2 ^ 32
        \<and> softdrop_timer v \<le> frame_duration env
        \<and> 0 < p \<and> (int p - 1) * frame_duration env < softdrop_delay v
        \<and> softdrop_delay v \<le> int p * frame_duration env
        \<and> (\<forall>i. 1 \<le> i \<and> i \<le> k div p + 2
              \<longrightarrow> hasCollisionAt v (active_piece_x v) (active_piece_y v + i) = Some False)
      \<longrightarrow> (\<exists>v'. run_frames env v ([\<lparr>ev_type = DOWN, ev_down = True\<rparr>] # replicate k []) = Some v'
             \<and> active_piece_y v' = active_piece_y v + 1 + k div p
             \<and> active_piece v' = active_piece v \<and> active_piece_x v' = active_piece_x v
             \<and> matrix v' = matrix v \<and> keystates v' = (keystates v)(DOWN := True))"
  proof (intro impI, elim conjE)
    assume "\<not> gameover v" "pending_cleared_rows v = []" "active_piece v \<noteq> None"
      "keystates v A = keystates v B" "keystates v LEFT = keystates v RIGHT"
      "0 < gravity_delay v" "length (matrix v) < 2 ^ 32"
      "softdrop_timer v \<le> frame_duration env"
      "0 < p" "(int p - 1) * frame_duration env < softdrop_delay v"
      "softdrop_delay v \<le> int p * frame_duration env"
      "\<forall>i. 1 \<le> i \<and> i \<le> k div p + 2
              \<longrightarrow> hasCollisionAt v (active_piece_x v) (active_piece_y v + i) = Some False"
    then show "\<exists>v'. run_frames env v ([\<lparr>ev_type = DOWN, ev_down = True\<rparr>] # replicate k []) = Some v'
             \<and> active_piece_y v' = active_piece_y v + 1 + k div p
             \<and> active_piece v' = active_piece v \<and> active_piece_x v' = active_piece_x v
             \<and> matrix v' = matrix v \<and> keystates v' = (keystates v)(DOWN := True)"
      by (rule run_frames_press_down)
  qed
  from a b c d e show ?thesis by (intro conjI)
qed

theorem gravity_skipped_iff_witness:
  "(\<exists>w1. handleKeys example_env holding_down [] = Some w1
      \<and> keystates holding_down DOWN \<and> previous_keystates holding_down DOWN
      \<and> skip_gravity w1 \<and> 0 < gravity_delay w1
      \<and> (\<exists>t. updateGravity example_env w1 = Some (w1\<lparr>gravity_timer := t\<rparr>)))
   \<and> (\<exists>w1. handleKeys example_env due_T [] = Some w1
      \<and> \<not> skip_gravity w1 \<and> gravity_delay w1 \<le> gravity_timer w1 + frame_duration example_env
      \<and> updateGravity example_env w1 =
           applyGravity example_env
             (w1\<lparr>gravity_timer := gravity_timer w1 + frame_duration example_env - gravity_delay w1\<rparr>)
             \<bind> gravity_loop example_env)
   \<and> \<not> gameover falling_T \<and> pending_cleared_rows falling_T = []
   \<and> active_piece falling_T \<noteq> None
   \<and> keystates falling_T A = keystates falling_T B
   \<and> keystates falling_T LEFT = keystates falling_T RIGHT
   \<and> 0 < gravity_delay falling_T \<and> length (matrix falling_T) < 2 ^ 32
   \<and> softdrop_timer falling_T \<le> frame_duration example_env
   \<and> (int 4 - 1) * frame_duration example_env < softdrop_delay falling_T
   \<and> softdrop_delay falling_T \<le> int 4 * frame_duration example_env
   \<and> list_all (\<lambda>i. hasCollisionAt falling_T (active_piece_x falling_T)
                  (active_piece_y falling_T + i) = Some False) [1, 2, 3, 4]
   \<and> (\<exists>v'. run_frames example_env falling_T
              ([\<lparr>ev_type = DOWN, ev_down = True\<rparr>] # replicate 8 []) = Some v'
         \<and> active_piece_y v' = 5 \<and> active_piece_x v' = 3 \<and> keystates v' DOWN)"
proof -
  note inst = gravity_skipped_iff [where env = example_env and events = "[]"
      and v = falling_T and p = 4 and k = 8]
  have "map_option (\<lambda>w1. (skip_gravity w1, gravity_delay w1))
      (handleKeys example_env holding_down []) = Some (True, 64000)"
    by code_simp
  then obtain w1 where hk: "handleKeys example_env holding_down [] = Some w1"
    and s: "skip_gravity w1" and d: "gravity_delay w1 = 64000" by auto
  have k: "keystates holding_down DOWN" "previous_keystates holding_down DOWN"
    by (simp_all add: holding_down_def)
  from inst [where w = holding_down and ?w1.0 = w1] hk s d
  have "\<exists>t. updateGravity example_env w1 = Some (w1\<lparr>gravity_timer := t\<rparr>)" by simp
  with hk s d k have A: "\<exists>w1. handleKeys example_env holding_down [] = Some w1
      \<and> keystates holding_down DOWN \<and> previous_keystates holding_down DOWN
      \<and> skip_gravity w1 \<and> 0 < gravity_delay w1
      \<and> (\<exists>t. updateGravity example_env w1 = Some (w1\<lparr>gravity_timer := t\<rparr>))" by auto
  have "map_option (\<lambda>w1. (skip_gravity w1, gravity_delay w1, gravity_timer w1))
      (handleKeys example_env due_T []) = Some (False, 64000, 63000)"
    by code_simp
  then obtain w2 where hk2: "handleKeys example_env due_T [] = Some w2"
    and s2: "\<not> skip_gravity w2" and d2: "gravity_delay w2 = 64000" "gravity_timer w2 = 63000"
    by auto
  have fd: "frame_duration example_env = 1000" by (simp add: example_env_def)
  from inst [where w = due_T and ?w1.0 = w2] hk2 s2 d2 fd
  have "updateGravity example_env w2 =
           applyGravity example_env
             (w2\<lparr>gravity_timer := gravity_timer w2 + frame_duration example_env - gravity_delay w2\<rparr>)
             \<bind> gravity_loop example_env" by simp
  with hk2 s2 d2 fd have B: "\<exists>w1. handleKeys example_env due_T [] = Some w1
      \<and> \<not> skip_gravity w1 \<and> gravity_delay w1 \<le> gravity_timer w1 + frame_duration example_env
      \<and> updateGravity example_env w1 =
           applyGravity example_env
             (w1\<lparr>gravity_timer := gravity_timer w1 + frame_duration example_env - gravity_delay w1\<rparr>)
             \<bind> gravity_loop example_env" by auto
  have h: "\<not> gameover falling_T" "pending_cleared_rows falling_T = []"
    "active_piece falling_T \<noteq> None"
    "keystates falling_T A = keystates falling_T B"
    "keystates falling_T LEFT = keystates falling_T RIGHT"
    "0 < gravity_delay falling_T"
    "softdrop_timer falling_T \<le> frame_duration example_env"
    "(int 4 - 1) * frame_duration example_env < softdrop_delay falling_T"
    "softdrop_delay falling_T \<le> int 4 * frame_duration example_env"
    by code_simp+
  have rows: "length (matrix falling_T) = 22" by code_simp
  then have len: "length (matrix falling_T) < 2 ^ 32" by simp
  have pos: "active_piece_y falling_T = 2" "active_piece_x falling_T = 3" by code_simp+
  have free: "list_all (\<lambda>i. hasCollisionAt falling_T (active_piece_x falling_T)
                  (active_piece_y falling_T + i) = Some False) [1, 2, 3, 4]"
    by code_simp
  have all: "\<forall>i. 1 \<le> i \<and> i \<le> 8 div 4 + 2
      \<longrightarrow> hasCollisionAt falling_T (active_piece_x falling_T) (active_piece_y falling_T + i)
            = Some False"
  proof (intro allI impI)
    fix i :: nat assume "1 \<le> i \<and> i \<le> 8 div 4 + 2"
    then have "i \<in> set [1, 2, 3, 4]" by auto
    with free show "hasCollisionAt falling_T (active_piece_x falling_T)
        (active_piece_y falling_T + i) = Some False"
      unfolding list_all_iff by blast
  qed
  have p4: "0 < (4::nat)" by simp
  note run = inst [where w = falling_T, THEN conjunct2, THEN conjunct2, THEN conjunct2,
      THEN conjunct2]
  from run h len all p4
  have "\<exists>v'. run_frames example_env falling_T
              ([\<lparr>ev_type = DOWN, ev_down = True\<rparr>] # replicate 8 []) = Some v'
         \<and> active_piece_y v' = active_piece_y falling_T + 1 + 8 div 4
         \<and> active_piece v' = active_piece falling_T
         \<and> active_piece_x v' = active_piece_x falling_T
         \<and> matrix v' = matrix falling_T \<and> keystates v' = (keystates falling_T)(DOWN := True)"
    by blast
  then obtain v' where r: "run_frames example_env falling_T
              ([\<lparr>ev_type = DOWN, ev_down = True\<rparr>] # replicate 8 []) = Some v'"
    and y: "active_piece_y v' = active_piece_y falling_T + 1 + 8 div 4"
    and x: "active_piece_x v' = active_piece_x falling_T"
    and ks: "keystates v' = (keystates falling_T)(DOWN := True)"
    by blast
  from r y x ks pos have C: "\<exists>v'. run_frames example_env falling_T
              ([\<lparr>ev_type = DOWN, ev_down = True\<rparr>] # replicate 8 []) = Some v'
         \<and> active_piece_y v' = 5 \<and> active_piece_x v' = 3 \<and> keystates v' DOWN" by simp
  from A B C h len free show ?thesis by (intro conjI)
qed

text \<open>Claim C4 as stated fails, in both of its parts. In \<open>due_T\<close> a frame without events
  completes the gravity interval and the piece falls a row. With a press of GAME_HOLD as
  the only event the interval is completed as well, nothing has moved the piece down,
  and it stays in its row. With DOWN held and the soft drop timer still running, the
  same: no soft drop, no hard drop, and no gravity step.

  With DOWN pressed and held over \<open>falling_T\<close> for 33 frames of 1000 ticks, at a soft drop
  delay of 3200 ticks, the piece is 9 rows further down, a row every four frames, where
  a row per 3200 ticks would be 10. After \<open>setGravity\<close> with 400 ticks the soft drop
  delay is 20 ticks; in four frames gravity alone takes the piece down 10 rows, and
  with DOWN held it goes down 4.\<close>

theorem gravity_skip_counterexample:
  "map_option (\<lambda>w. (active_piece_y w, gravity_timer w)) (update example_env due_T [])
     = Some (3, 0)
   \<and> map_option (\<lambda>w. (active_piece_y w, gravity_timer w, skip_gravity w, emitted w))
       (update example_env due_T [\<lparr>ev_type = GAME_HOLD, ev_down = True\<rparr>])
     = Some (2, 0, True, [HOLD_REQUESTED])
   \<and> map_option (\<lambda>w. (active_piece_y w, gravity_timer w, skip_gravity w, softdrop_timer w))
       (update example_env holding_down [])
     = Some (2, 0, True, 1000)
   \<and> (active_piece_y falling_T, gravity_delay falling_T, softdrop_delay falling_T,
        frame_duration example_env) = (2, 64000, 3200, 1000)
   \<and> map_option active_piece_y
       (run_frames example_env falling_T
          ([\<lparr>ev_type = DOWN, ev_down = True\<rparr>] # replicate 32 []))
     = Some 11
   \<and> (gravity_delay (setGravity example_env falling_T 400),
        softdrop_delay (setGravity example_env falling_T 400)) = (400, 20)
   \<and> map_option active_piece_y
       (run_frames example_env (setGravity example_env falling_T 400) (replicate 4 []))
     = Some 12
   \<and> map_option active_piece_y
       (run_frames example_env (setGravity example_env falling_T 400)
          ([\<lparr>ev_type = DOWN, ev_down = True\<rparr>] # replicate 3 []))
     = Some 6"
  by code_simp

section \<open>Row removal after a line clear\<close>

lemma kept_rows_0: "kept_rows 0 m P = []"
  by (simp add: kept_rows_def)

lemma kept_rows_Suc:
  "kept_rows (Suc k) m P = kept_rows k m P @ (if k \<in> set P then [] else [m ! k])"
  by (simp add: kept_rows_def)

lemma kept_rows_all_pending:
  "\<forall>j. n \<le> j \<and> j < k \<longrightarrow> j \<in> set P \<Longrightarrow> n \<le> k \<Longrightarrow> kept_rows k m P = kept_rows n m P"
proof (induction k)
  case 0
  then show ?case by simp
next
  case (Suc k)
  show ?case
  proof (cases "n = Suc k")
    case True
    then show ?thesis by simp
  next
    case False
    with Suc.prems have "n \<le> k" "k \<in> set P" by auto
    with Suc show ?thesis by (simp add: kept_rows_Suc)
  qed
qed

lemma kept_rows_cong:
  "(\<And>i. i < k \<Longrightarrow> i \<notin> set P \<Longrightarrow> m' ! i = m ! i) \<Longrightarrow> kept_rows k m' P = kept_rows k m P"
  by (simp add: kept_rows_def)

lemma next_filled_row_props:
  "- 1 \<le> n \<Longrightarrow>
     - 1 \<le> next_filled_row P n \<and> next_filled_row P n \<le> n
     \<and> \<not> pending_count P (next_filled_row P n)
     \<and> (\<forall>j. next_filled_row P n < j \<and> j \<le> n \<longrightarrow> pending_count P j)"
proof (induction P n rule: next_filled_row.induct)
  case (1 P n)
  show ?case
  proof (cases "pending_count P n")
    case False
    then have "next_filled_row P n = n" by (subst next_filled_row.simps) simp
    then show ?thesis using False "1.prems" by auto
  next
    case True
    then have "0 \<le> n" by (simp add: pending_count_def)
    with "1.IH" [OF True] have IH: "- 1 \<le> next_filled_row P (n - 1)"
      "next_filled_row P (n - 1) \<le> n - 1" "\<not> pending_count P (next_filled_row P (n - 1))"
      "\<forall>j. next_filled_row P (n - 1) < j \<and> j \<le> n - 1 \<longrightarrow> pending_count P j"
      by simp_all
    have eq: "next_filled_row P n = next_filled_row P (n - 1)"
      using True by (subst next_filled_row.simps) simp
    have "\<forall>j. next_filled_row P (n - 1) < j \<and> j \<le> n \<longrightarrow> pending_count P j"
    proof (intro allI impI)
      fix j assume j: "next_filled_row P (n - 1) < j \<and> j \<le> n"
      show "pending_count P j"
      proof (cases "j = n")
        case True
        with \<open>pending_count P n\<close> show ?thesis by simp
      next
        case False
        with j IH(4) show ?thesis by simp
      qed
    qed
    with IH show ?thesis unfolding eq by simp
  qed
qed

lemma kept_rows_pending_cong:
  "(\<And>i. i < k \<Longrightarrow> (i \<in> set P') = (i \<in> set P)) \<Longrightarrow> kept_rows k m P' = kept_rows k m P"
proof -
  assume a: "\<And>i. i < k \<Longrightarrow> (i \<in> set P') = (i \<in> set P)"
  have "filter (\<lambda>i. i \<notin> set P') [0 ..< k] = filter (\<lambda>i. i \<notin> set P) [0 ..< k]"
    by (rule filter_cong) (simp_all add: a)
  then show ?thesis by (simp add: kept_rows_def)
qed

lemma remove_loop_inv:
  "k \<le> H \<Longrightarrow> length (matrix w) = H \<Longrightarrow> set (pending_cleared_rows w) \<subseteq> {..<H} \<Longrightarrow>
   kept_rows k (matrix w) (pending_cleared_rows w) @ drop k (matrix w) = surv \<Longrightarrow>
   \<exists>m' P' j. remove_loop w (int k - 1) = Some (w\<lparr>matrix := m', pending_cleared_rows := P'\<rparr>)
      \<and> length m' = H \<and> j \<le> H \<and> drop j m' = surv \<and> mset m' = mset (matrix w)"
proof (induction k arbitrary: w)
  case 0
  have "remove_loop w (int 0 - 1) = Some (w\<lparr>matrix := matrix w,
      pending_cleared_rows := pending_cleared_rows w\<rparr>)"
    by (subst remove_loop.simps) simp
  moreover have "drop 0 (matrix w) = surv" using "0.prems"(4) by (simp add: kept_rows_0)
  ultimately show ?case using "0.prems"(2) by blast
next
  case (Suc k)
  let ?m = "matrix w" and ?P = "pending_cleared_rows w"
  have kH: "k < H" using Suc.prems(1) by simp
  have dropk: "drop k ?m = ?m ! k # drop (Suc k) ?m"
    using kH Suc.prems(2) by (simp add: Cons_nth_drop_Suc)
  have row: "int (Suc k) - 1 = int k" by simp
  show ?case
  proof (cases "k \<in> set ?P")
    case False
    then have step: "remove_loop w (int k) = remove_loop w (int k - 1)"
      by (subst remove_loop.simps) (simp add: pending_count_def)
    have "kept_rows k ?m ?P @ drop k ?m = surv"
      using Suc.prems(4) False by (simp add: kept_rows_Suc dropk)
    from Suc.IH [OF _ Suc.prems(2,3) this] kH show ?thesis
      unfolding row step by simp
  next
    case True
    then have pc: "pending_count ?P (int k)" by (simp add: pending_count_def)
    define n where "n = next_filled_row ?P (int k)"
    from next_filled_row_props [of "int k" ?P]
    have n: "- 1 \<le> n" "n \<le> int k" "\<not> pending_count ?P n"
      "\<forall>j. n < j \<and> j \<le> int k \<longrightarrow> pending_count ?P j"
      by (simp_all add: n_def)
    from n(2,3) pc have nk: "n < int k" by (cases "n = int k") auto
    have surv: "kept_rows k ?m ?P @ drop (Suc k) ?m = surv"
      using Suc.prems(4) True by (simp add: kept_rows_Suc)
    show ?thesis
    proof (cases "n < 0")
      case neg: True
      have all: "\<forall>j. 0 \<le> j \<and> j < k \<longrightarrow> j \<in> set ?P"
      proof (intro allI impI)
        fix j assume "0 \<le> j \<and> j < k"
        then have "n < int j \<and> int j \<le> int k" using neg by auto
        with n(4) show "j \<in> set ?P" by (auto simp: pending_count_def)
      qed
      have "remove_loop w (int k) = Some (w\<lparr>matrix := ?m, pending_cleared_rows := ?P\<rparr>)"
        using pc neg by (subst remove_loop.simps) (simp add: n_def)
      moreover have "drop (Suc k) ?m = surv"
        using surv kept_rows_all_pending [OF all, of ?m] by (simp add: kept_rows_0)
      ultimately show ?thesis using Suc.prems(1,2) unfolding row by blast
    next
      case nonneg: False
      define nn where "nn = nat n"
      have nn: "nn < k" "int nn = n" using nonneg nk by (simp_all add: nn_def)
      have nnP: "nn \<notin> set ?P" using n(3) nonneg by (simp add: pending_count_def nn_def)
      have between: "\<forall>j. nn < j \<and> j < k \<longrightarrow> j \<in> set ?P"
      proof (intro allI impI)
        fix j assume "nn < j \<and> j < k"
        then have "n < int j \<and> int j \<le> int k" using nn(2) by auto
        with n(4) show "j \<in> set ?P" by (auto simp: pending_count_def)
      qed
      define m' where "m' = ?m[k := ?m ! nn, nn := ?m ! k]"
      define w' where "w' = w\<lparr>matrix := m', pending_cleared_rows := insort_insert nn ?P\<rparr>"
      have step: "remove_loop w (int k) = remove_loop w' (int k - 1)"
        using pc nonneg kH nn(1) Suc.prems(2)
        by (subst remove_loop.simps) (simp add: n_def [symmetric] nn_def [symmetric] w'_def m'_def)
      have len': "length (matrix w') = H" using Suc.prems(2) by (simp add: w'_def m'_def)
      have P': "set (pending_cleared_rows w') \<subseteq> {..<H}"
        using Suc.prems(3) nn(1) kH by (auto simp: w'_def set_insort_insert)
      have k1: "kept_rows k m' (insort_insert nn ?P) = kept_rows nn ?m ?P"
      proof -
        have "\<forall>j. nn \<le> j \<and> j < k \<longrightarrow> j \<in> set (insort_insert nn ?P)"
        proof (intro allI impI)
          fix j assume j: "nn \<le> j \<and> j < k"
          show "j \<in> set (insort_insert nn ?P)"
          proof (cases "j = nn")
            case True
            then show ?thesis by (simp add: set_insort_insert)
          next
            case False
            with j between show ?thesis by (simp add: set_insort_insert)
          qed
        qed
        then have "kept_rows k m' (insort_insert nn ?P) = kept_rows nn m' (insort_insert nn ?P)"
          using nn(1) by (intro kept_rows_all_pending) simp_all
        also have "\<dots> = kept_rows nn ?m (insort_insert nn ?P)"
          using nn(1) by (intro kept_rows_cong) (simp add: m'_def)
        also have "\<dots> = kept_rows nn ?m ?P"
          by (intro kept_rows_pending_cong) (auto simp: set_insort_insert)
        finally show ?thesis .
      qed
      have k2: "kept_rows k ?m ?P = kept_rows nn ?m ?P @ [?m ! nn]"
      proof -
        have "\<forall>j. Suc nn \<le> j \<and> j < k \<longrightarrow> j \<in> set ?P"
          using between by simp
        then have "kept_rows k ?m ?P = kept_rows (Suc nn) ?m ?P"
          using nn(1) by (intro kept_rows_all_pending) simp_all
        then show ?thesis using nnP by (simp add: kept_rows_Suc)
      qed
      have d: "drop k m' = ?m ! nn # drop (Suc k) ?m"
      proof -
        have "length m' = H" using Suc.prems(2) by (simp add: m'_def)
        then have "drop k m' = m' ! k # drop (Suc k) m'" using kH by (simp add: Cons_nth_drop_Suc)
        moreover have "m' ! k = ?m ! nn" using nn(1) kH Suc.prems(2) by (simp add: m'_def)
        moreover have "drop (Suc k) m' = drop (Suc k) ?m" using nn(1) by (simp add: m'_def)
        ultimately show ?thesis by simp
      qed
      have inv': "kept_rows k (matrix w') (pending_cleared_rows w') @ drop k (matrix w') = surv"
        using surv k1 k2 d by (simp add: w'_def)
      from Suc.IH [OF _ len' P' inv'] kH obtain m'' P'' j where
        r: "remove_loop w' (int k - 1) = Some (w'\<lparr>matrix := m'', pending_cleared_rows := P''\<rparr>)"
        and rest: "length m'' = H" "j \<le> H" "drop j m'' = surv" "mset m'' = mset (matrix w')"
        by auto
      have "mset (matrix w') = mset ?m"
        using mset_swap [of nn ?m k] nn(1) kH Suc.prems(2) by (simp add: w'_def m'_def)
      moreover have "w'\<lparr>matrix := m'', pending_cleared_rows := P''\<rparr>
          = w\<lparr>matrix := m'', pending_cleared_rows := P''\<rparr>" by (simp add: w'_def)
      ultimately show ?thesis using r rest unfolding row step by auto
    qed
  qed
qed

lemma count_pending_below:
  "length (filter (\<lambda>j. j \<in> set P) [0 ..< i]) = card {r \<in> set P. r < i}"
proof -
  have "length (filter (\<lambda>j. j \<in> set P) [0 ..< i]) = card ({j. j \<in> set P} \<inter> set [0 ..< i])"
    by (rule distinct_length_filter) simp
  also have "{j. j \<in> set P} \<inter> set [0 ..< i] = {r \<in> set P. r < i}" by auto
  finally show ?thesis .
qed

lemma count_kept_below:
  "length (filter (\<lambda>j. j \<notin> set P) [0 ..< i]) + card {r \<in> set P. r < i} = i"
  using sum_length_filter_compl [of "\<lambda>j. j \<in> set P" "[0 ..< i]"]
  by (simp add: count_pending_below)

lemma length_kept_rows:
  assumes "distinct P" and "set P \<subseteq> {..<H}"
  shows "length (kept_rows H m P) + length P = H"
proof -
  have "{r \<in> set P. r < H} = set P" using assms(2) by auto
  then have "card {r \<in> set P. r < H} = length P" using assms(1) by (simp add: distinct_card)
  with count_kept_below [of P H] show ?thesis by (simp add: kept_rows_def)
qed

lemma kept_rows_nth:
  assumes "i < H" and "i \<notin> set P"
  shows "kept_rows H m P ! length (filter (\<lambda>j. j \<notin> set P) [0 ..< i]) = m ! i"
proof -
  have "[0 ..< H] = [0 ..< i] @ i # [Suc i ..< H]"
    using assms(1) by (metis le_add1 less_imp_add_positive upt_add_eq_append upt_conv_Cons
        add_0 less_eq_nat.simps(1) less_imp_le_nat upt_rec)
  then have "kept_rows H m P =
      map ((!) m) (filter (\<lambda>j. j \<notin> set P) [0 ..< i]) @ m ! i
        # map ((!) m) (filter (\<lambda>j. j \<notin> set P) [Suc i ..< H])"
    using assms(2) by (simp add: kept_rows_def)
  then show ?thesis
    by (simp add: nth_append)
qed

lemma shift_index:
  assumes "distinct P" and "i \<notin> set P"
  shows "length P + length (filter (\<lambda>j. j \<notin> set P) [0 ..< i]) = i + card {r \<in> set P. i < r}"
proof -
  have "\<And>r. r \<in> set P \<Longrightarrow> r < i \<or> i < r"
    using assms(2) by (metis linorder_neqE_nat)
  then have "set P = {r \<in> set P. r < i} \<union> {r \<in> set P. i < r}" by auto
  moreover have "{r \<in> set P. r < i} \<inter> {r \<in> set P. i < r} = {}" by auto
  ultimately have "card (set P) = card {r \<in> set P. r < i} + card {r \<in> set P. i < r}"
    by (metis (no_types, lifting) List.finite_set card_Un_disjoint finite_Un)
  then have "length P = card {r \<in> set P. r < i} + card {r \<in> set P. i < r}"
    using assms(1) by (simp add: distinct_card)
  with count_kept_below [of P i] show ?thesis by simp
qed

lemma removeEmptyRows_effect:
  assumes ne: "pending_cleared_rows w \<noteq> []" and le: "length (pending_cleared_rows w) \<le> 4"
    and d: "distinct (pending_cleared_rows w)"
    and sub: "set (pending_cleared_rows w) \<subseteq> {..<length (matrix w)}"
  shows "\<exists>m'. removeEmptyRows w =
        Some (w\<lparr>emitted := emitted w @ [LINE_CLEAR (length (pending_cleared_rows w))],
                matrix := m', pending_cleared_rows := []\<rparr>)
     \<and> length m' = length (matrix w) \<and> mset m' = mset (matrix w)
     \<and> drop (length (pending_cleared_rows w)) m' =
         kept_rows (length (matrix w)) (matrix w) (pending_cleared_rows w)"
proof -
  let ?H = "length (matrix w)" and ?P = "pending_cleared_rows w"
  define w0 where "w0 = notify (LINE_CLEAR (length ?P)) w"
  have w0: "matrix w0 = matrix w" "pending_cleared_rows w0 = ?P"
    by (simp_all add: w0_def notify_def)
  have "\<not> pending_count ?P (int ?H)" using sub by (auto simp: pending_count_def)
  then have start: "remove_loop w0 (int ?H) = remove_loop w0 (int ?H - 1)"
    by (subst remove_loop.simps) (simp add: w0)
  have "kept_rows ?H (matrix w0) (pending_cleared_rows w0) @ drop ?H (matrix w0)
      = kept_rows ?H (matrix w) ?P" by (simp add: w0)
  from remove_loop_inv [OF _ _ _ this] sub obtain m' P' j where
    r: "remove_loop w0 (int ?H - 1) = Some (w0\<lparr>matrix := m', pending_cleared_rows := P'\<rparr>)"
    and m': "length m' = ?H" "j \<le> ?H" "drop j m' = kept_rows ?H (matrix w) ?P"
      "mset m' = mset (matrix w)"
    by (auto simp: w0)
  have "length (drop j m') + length ?P = ?H"
    using length_kept_rows [OF d sub, of "matrix w"] m'(3) by simp
  then have j: "j = length ?P" using m'(1,2) by simp
  have "removeEmptyRows w = Some (w\<lparr>emitted := emitted w @ [LINE_CLEAR (length ?P)],
                matrix := m', pending_cleared_rows := []\<rparr>)"
    using ne le r start by (simp add: removeEmptyRows_def w0_def [symmetric]) (simp add: w0_def notify_def)
  with m' j show ?thesis by blast
qed

text \<open>Claim C5. In a well in play with pending rows (at most four, rows of the board)
  whose blocking animations are all finished by this frame, one call of \<^verbatim>\<open>update\<close>
  returns; the board keeps its rows as a multiset and every row that is not pending lies
  lower by the number of pending rows below it; \<open>LINE_CLEAR\<close> with the number of pending
  rows and then \<open>NEXT_REQUESTED\<close> have been emitted; the pending set is empty; and the lock
  countdown is stopped.\<close>

theorem update_finalizes_clear:
  assumes "\<not> gameover w" and "pending_cleared_rows w \<noteq> []"
    and "length (pending_cleared_rows w) \<le> 4" and "distinct (pending_cleared_rows w)"
    and "set (pending_cleared_rows w) \<subseteq> {..<length (matrix w)}"
    and "blocking_anims (updateAnimations env w) = []"
  shows "\<exists>w'. update env w events = Some w'
     \<and> length (matrix w') = length (matrix w) \<and> mset (matrix w') = mset (matrix w)
     \<and> (\<forall>i<length (matrix w). i \<notin> set (pending_cleared_rows w) \<longrightarrow>
           matrix w' ! (i + card {r \<in> set (pending_cleared_rows w). i < r}) = matrix w ! i)
     \<and> emitted w' = emitted w @ [LINE_CLEAR (length (pending_cleared_rows w)), NEXT_REQUESTED]
     \<and> pending_cleared_rows w' = [] \<and> cd_state (lock_countdown w') = Stopped"
proof -
  let ?P = "pending_cleared_rows w" and ?H = "length (matrix w)"
  define w0 where "w0 = updateAnimations env w"
  have w0: "matrix w0 = matrix w" "pending_cleared_rows w0 = ?P" "gameover w0 = gameover w"
    "emitted w0 = emitted w" "blocking_anims w0 = []"
    using assms(6) by (simp_all add: w0_def) (simp_all add: updateAnimations_def)
  from removeEmptyRows_effect [of w0] assms(2-5) w0 obtain m' where
    r: "removeEmptyRows w0 = Some (w0\<lparr>emitted := emitted w0 @ [LINE_CLEAR (length ?P)],
                matrix := m', pending_cleared_rows := []\<rparr>)"
    and m': "length m' = ?H" "mset m' = mset (matrix w)"
      "drop (length ?P) m' = kept_rows ?H (matrix w) ?P"
    by auto
  define w1 where "w1 = w0\<lparr>emitted := emitted w0 @ [LINE_CLEAR (length ?P)],
                matrix := m', pending_cleared_rows := []\<rparr>"
  define w' where "w' = notify NEXT_REQUESTED (w1\<lparr>lock_countdown := cd_stop (lock_countdown w1)\<rparr>)"
  have up: "update env w events = Some w'"
    using assms(1,2) w0 r
    by (simp add: update_def Let_def w0_def [symmetric] w1_def w'_def)
  have fields: "matrix w' = m'" "pending_cleared_rows w' = []"
    "emitted w' = emitted w @ [LINE_CLEAR (length ?P), NEXT_REQUESTED]"
    "cd_state (lock_countdown w') = Stopped"
    by (simp_all add: w'_def w1_def notify_def cd_stop_def w0)
  have shift: "\<forall>i<?H. i \<notin> set ?P \<longrightarrow> m' ! (i + card {r \<in> set ?P. i < r}) = matrix w ! i"
  proof (intro allI impI)
    fix i assume i: "i < ?H" "i \<notin> set ?P"
    let ?q = "length (filter (\<lambda>j. j \<notin> set ?P) [0 ..< i])"
    have "length ?P + ?q \<le> length m'"
    proof -
      have "?q < length (kept_rows ?H (matrix w) ?P)"
      proof -
        have "[0 ..< ?H] = [0 ..< i] @ [i ..< ?H]"
          using i(1) by (metis le_add_diff_inverse less_imp_le_nat upt_add_eq_append zero_le)
        moreover have "filter (\<lambda>j. j \<notin> set ?P) [i ..< ?H] \<noteq> []"
          using i by (auto simp: filter_empty_conv intro!: bexI [of _ i])
        ultimately show ?thesis by (simp add: kept_rows_def)
      qed
      then show ?thesis using length_kept_rows [OF assms(4,5), of "matrix w"] m'(1) by simp
    qed
    then have "m' ! (length ?P + ?q) = drop (length ?P) m' ! ?q" by simp
    also have "\<dots> = matrix w ! i" unfolding m'(3) by (rule kept_rows_nth [OF i])
    finally show "m' ! (i + card {r \<in> set ?P. i < r}) = matrix w ! i"
      using shift_index [OF assms(4) i(2)] by simp
  qed
  from up fields m' shift show ?thesis by simp
qed

theorem update_finalizes_clear_witness:
  "\<not> gameover clearing \<and> pending_cleared_rows clearing \<noteq> []
   \<and> length (pending_cleared_rows clearing) \<le> 4 \<and> distinct (pending_cleared_rows clearing)
   \<and> set (pending_cleared_rows clearing) \<subseteq> {..<length (matrix clearing)}
   \<and> blocking_anims (updateAnimations example_env clearing) = []
   \<and> (\<exists>w'. update example_env clearing [] = Some w'
         \<and> matrix w' ! 21 = matrix clearing ! 20 \<and> matrix w' ! 20 = matrix clearing ! 18
         \<and> emitted w' = [LINE_CLEAR 2, NEXT_REQUESTED]
         \<and> pending_cleared_rows w' = [] \<and> cd_state (lock_countdown w') = Stopped)"
proof -
  have P: "pending_cleared_rows clearing = [19, 21]" by (simp add: clearing_def)
  have H: "length (matrix clearing) = 22" by code_simp
  have e: "emitted clearing = []" by code_simp
  have h1: "\<not> gameover clearing" by code_simp
  have h2: "pending_cleared_rows clearing \<noteq> []" by (simp add: P)
  have h3: "length (pending_cleared_rows clearing) \<le> 4" by (simp add: P)
  have h4: "distinct (pending_cleared_rows clearing)" by (simp add: P)
  have h5: "set (pending_cleared_rows clearing) \<subseteq> {..<length (matrix clearing)}"
    by (simp add: P H)
  have h6: "blocking_anims (updateAnimations example_env clearing) = []" by code_simp
  from update_finalizes_clear [OF h1 h2 h3 h4 h5 h6, of "[]"] obtain w' where
    up: "update example_env clearing [] = Some w'"
    and shift: "\<forall>i<length (matrix clearing). i \<notin> set (pending_cleared_rows clearing) \<longrightarrow>
           matrix w' ! (i + card {r \<in> set (pending_cleared_rows clearing). i < r})
             = matrix clearing ! i"
    and rest: "emitted w' = emitted clearing
        @ [LINE_CLEAR (length (pending_cleared_rows clearing)), NEXT_REQUESTED]"
      "pending_cleared_rows w' = []" "cd_state (lock_countdown w') = Stopped"
    by blast
  have c20: "{r \<in> set (pending_cleared_rows clearing). (20::nat) < r} = {21}"
    and c18: "{r \<in> set (pending_cleared_rows clearing). (18::nat) < r} = {19, 21}"
    by (auto simp: P)
  have a: "matrix w' ! 21 = matrix clearing ! 20"
    using shift [rule_format, of 20, unfolded c20] by (simp add: H P)
  have b: "matrix w' ! 20 = matrix clearing ! 18"
    using shift [rule_format, of 18, unfolded c18] by (simp add: H P)
  from up a b rest h1 h2 h3 h4 h5 h6 show ?thesis by (simp add: e P)
qed

end
